theory Spec2Isabelle
  imports Complex_Main "HOL-Library.Log_Nat"
begin

section \<open>Errors\<close>

text \<open>
  The exceptions the modelled code can raise.  A function that may raise returns
  \<open>error + 'a\<close>, with \<open>Inl\<close> carrying the exception.  \<open>ParserRejectedMarkup\<close> is
  what the call \<open>BeautifulSoup(html_bytes, "html.parser")\<close> raises when \<open>html.parser\<close>
  gives up on the markup.
\<close>

datatype error = ValueError | OverflowError | ParserRejectedMarkup

definition bind :: "error + 'a \<Rightarrow> ('a \<Rightarrow> error + 'b) \<Rightarrow> error + 'b" where
  "bind m f = (case m of Inl e \<Rightarrow> Inl e | Inr x \<Rightarrow> f x)"

section \<open>Characters and strings\<close>

text \<open>
  Text is a list of code points.  The type \<open>char\<close> has the 256 code points
  U+0000 to U+00FF, so the model covers documents whose text lies in that range; the
  character classes below are those of Python's \<open>str\<close> on that range.
\<close>

definition ord :: "char \<Rightarrow> int" where
  "ord c = of_char c"

definition is_digit :: "char \<Rightarrow> bool" where
  \<comment> \<open>the class \<open>\d\<close> of a \<open>str\<close> pattern\<close>
  "is_digit c = (48 \<le> ord c \<and> ord c \<le> 57)"

definition is_space :: "char \<Rightarrow> bool" where
  \<comment> \<open>\<open>str.isspace\<close> and the class \<open>\s\<close> of a \<open>str\<close> pattern\<close>
  "is_space c = (ord c \<in> {9, 10, 11, 12, 13, 28, 29, 30, 31, 32, 133, 160})"

definition lower_char :: "char \<Rightarrow> char" where
  "lower_char c =
     (let n = ord c in
      if (65 \<le> n \<and> n \<le> 90) \<or> (192 \<le> n \<and> n \<le> 222 \<and> n \<noteq> 215)
      then char_of (n + 32) else c)"

definition lower :: "string \<Rightarrow> string" where
  \<comment> \<open>\<open>str.lower\<close>\<close>
  "lower s = map lower_char s"

definition strip :: "string \<Rightarrow> string" where
  \<comment> \<open>\<open>str.strip()\<close>\<close>
  "strip s = rev (dropWhile is_space (rev (dropWhile is_space s)))"

fun join :: "string \<Rightarrow> string list \<Rightarrow> string" where
  \<comment> \<open>\<open>sep.join(xs)\<close>\<close>
  "join sep [] = []"
| "join sep [x] = x"
| "join sep (x # y # ys) = x @ sep @ join sep (y # ys)"

fun startswith :: "string \<Rightarrow> string \<Rightarrow> bool" where
  \<comment> \<open>\<open>s.startswith(p)\<close>\<close>
  "startswith s [] = True"
| "startswith [] (p # ps) = False"
| "startswith (c # cs) (p # ps) = (c = p \<and> startswith cs ps)"

fun contains :: "string \<Rightarrow> string \<Rightarrow> bool" where
  \<comment> \<open>\<open>sub in s\<close>, as \<open>contains s sub\<close>\<close>
  "contains [] sub = (sub = [])"
| "contains (c # cs) sub = (startswith (c # cs) sub \<or> contains cs sub)"

definition digit_val :: "char \<Rightarrow> int" where
  "digit_val c = ord c - 48"

definition digits_value :: "string \<Rightarrow> int" where
  \<comment> \<open>the number a string of decimal digits denotes\<close>
  "digits_value s = foldl (\<lambda>a c. 10 * a + digit_val c) 0 s"

definition py_int :: "string \<Rightarrow> error + int" where
  \<comment> \<open>\<open>int(s)\<close> on a string of digits: the empty string is no literal, and a literal
      of more than 4300 digits exceeds the interpreter's conversion limit\<close>
  "py_int s =
     (if s = [] \<or> \<not> list_all is_digit s \<or> 4300 < length s then Inl ValueError
      else Inr (digits_value s))"

section \<open>Regular expressions\<close>

text \<open>
  The fragment of Python's \<open>re\<close> the program and \<open>strptime\<close> use: character classes,
  sequence, ordered alternation, greedy bounded repetition of a class, and capture
  groups.  \<open>rx_match r s\<close> lists, in the order the backtracking matcher tries them,
  every way \<open>r\<close> matches a prefix of \<open>s\<close>: the captured groups and the unread rest.
  The match Python reports is the first of the list.
\<close>

datatype regex =
    Eps
  | Chr "char \<Rightarrow> bool"
  | Seq regex regex
  | Alt regex regex
  | Rep nat "nat option" "char \<Rightarrow> bool"
  | Grp regex

fun rx_match :: "regex \<Rightarrow> string \<Rightarrow> (string list \<times> string) list" where
  "rx_match Eps s = [([], s)]"
| "rx_match (Chr p) s = (case s of [] \<Rightarrow> [] | c # cs \<Rightarrow> if p c then [([], cs)] else [])"
| "rx_match (Seq a b) s =
     concat (map (\<lambda>(g1, r1). map (\<lambda>(g2, r2). (g1 @ g2, r2)) (rx_match b r1)) (rx_match a s))"
| "rx_match (Alt a b) s = rx_match a s @ rx_match b s"
| "rx_match (Rep lo hi p) s =
     (let k = length (takeWhile p s);
          top = (case hi of None \<Rightarrow> k | Some h \<Rightarrow> min k h)
      in map (\<lambda>j. ([], drop j s)) (rev [lo ..< Suc top]))"
| "rx_match (Grp a) s =
     map (\<lambda>(g, r). (g @ [take (length s - length r) s], r)) (rx_match a s)"

fun rx_search :: "regex \<Rightarrow> string \<Rightarrow> string list option" where
  \<comment> \<open>\<open>pattern.search(s)\<close>: the leftmost position with a match; the groups of its first match\<close>
  "rx_search r [] = (case rx_match r [] of [] \<Rightarrow> None | (g, _) # _ \<Rightarrow> Some g)"
| "rx_search r (c # cs) =
     (case rx_match r (c # cs) of [] \<Rightarrow> rx_search r cs | (g, _) # _ \<Rightarrow> Some g)"

definition lit :: "char \<Rightarrow> regex" where
  "lit c = Chr (\<lambda>x. x = c)"

definition lit_ci :: "string \<Rightarrow> regex \<Rightarrow> regex" where
  \<comment> \<open>a literal under \<open>re.IGNORECASE\<close>, followed by \<open>r\<close>\<close>
  "lit_ci s r = foldr (\<lambda>c. Seq (Chr (\<lambda>x. lower_char x = lower_char c))) s r"

definition rng :: "char \<Rightarrow> char \<Rightarrow> regex" where
  \<comment> \<open>the class \<open>[a-b]\<close>\<close>
  "rng a b = Chr (\<lambda>x. ord a \<le> ord x \<and> ord x \<le> ord b)"

definition DATE_PAT :: regex where
  \<comment> \<open>\<open>Received[:\s]+(\d{1,2}/\d{1,2}/\d{2,4})\<close>, \<open>re.IGNORECASE\<close>\<close>
  "DATE_PAT =
     lit_ci ''Received''
       (Seq (Rep 1 None (\<lambda>c. c = CHR '':'' \<or> is_space c))
         (Grp (Seq (Rep 1 (Some 2) is_digit) (Seq (lit CHR ''/'')
              (Seq (Rep 1 (Some 2) is_digit) (Seq (lit CHR ''/'')
              (Rep 2 (Some 4) is_digit)))))))"

definition PRICE_PAT :: regex where
  \<comment> \<open>\<open>Quoted Price\s*[$:]*\s*([\d,]+)\<close>, \<open>re.IGNORECASE\<close>\<close>
  "PRICE_PAT =
     lit_ci ''Quoted Price''
       (Seq (Rep 0 None is_space)
         (Seq (Rep 0 None (\<lambda>c. c = CHR ''$'' \<or> c = CHR '':''))
           (Seq (Rep 0 None is_space)
             (Grp (Rep 1 None (\<lambda>c. is_digit c \<or> c = CHR '',''))))))"

definition group1 :: "regex \<Rightarrow> string \<Rightarrow> string option" where
  \<comment> \<open>\<open>m = pat.search(s)\<close> and \<open>m.group(1)\<close>; \<open>None\<close> when there is no match\<close>
  "group1 pat s = (case rx_search pat s of None \<Rightarrow> None | Some g \<Rightarrow> Some (hd g))"

section \<open>Dates\<close>

record pydate =
  year :: int
  month :: int
  day :: int

definition is_leap :: "int \<Rightarrow> bool" where
  "is_leap y = (y mod 4 = 0 \<and> (y mod 100 \<noteq> 0 \<or> y mod 400 = 0))"

definition days_in_month :: "int \<Rightarrow> int \<Rightarrow> int" where
  "days_in_month y m =
     (if m = 2 then (if is_leap y then 29 else 28)
      else if m \<in> {4, 6, 9, 11} then 30 else 31)"

definition days_before_year :: "int \<Rightarrow> int" where
  "days_before_year y = (y - 1) * 365 + (y - 1) div 4 - (y - 1) div 100 + (y - 1) div 400"

definition days_before_month :: "int \<Rightarrow> int \<Rightarrow> int" where
  "days_before_month y m =
     [0, 0, 31, 59, 90, 120, 151, 181, 212, 243, 273, 304, 334] ! nat m
       + (if 2 < m \<and> is_leap y then 1 else 0)"

definition toordinal :: "pydate \<Rightarrow> int" where
  "toordinal d = days_before_year (year d) + days_before_month (year d) (month d) + day d"

definition days_between :: "pydate \<Rightarrow> pydate \<Rightarrow> int" where
  \<comment> \<open>\<open>(a - b).days\<close>\<close>
  "days_between a b = toordinal a - toordinal b"

definition make_date :: "int \<Rightarrow> int \<Rightarrow> int \<Rightarrow> error + pydate" where
  \<comment> \<open>the constructor \<open>date(y, m, d)\<close>, which raises on a date that does not exist\<close>
  "make_date y m d =
     (if 1 \<le> y \<and> y \<le> 9999 \<and> 1 \<le> m \<and> m \<le> 12 \<and> 1 \<le> d \<and> d \<le> days_in_month y m
      then Inr \<lparr>year = y, month = m, day = d\<rparr> else Inl ValueError)"

subsection \<open>strptime\<close>

definition re_m :: regex where
  \<comment> \<open>\<open>%m\<close>: \<open>(1[0-2]|0[1-9]|[1-9])\<close>\<close>
  "re_m = Grp (Alt (Seq (lit CHR ''1'') (rng CHR ''0'' CHR ''2''))
             (Alt (Seq (lit CHR ''0'') (rng CHR ''1'' CHR ''9'')) (rng CHR ''1'' CHR ''9'')))"

definition re_d :: regex where
  \<comment> \<open>\<open>%d\<close>: \<open>(3[0-1]|[1-2]\d|0[1-9]|[1-9]| [1-9])\<close>\<close>
  "re_d = Grp (Alt (Seq (lit CHR ''3'') (rng CHR ''0'' CHR ''1''))
             (Alt (Seq (rng CHR ''1'' CHR ''2'') (Chr is_digit))
             (Alt (Seq (lit CHR ''0'') (rng CHR ''1'' CHR ''9''))
             (Alt (rng CHR ''1'' CHR ''9'')
                  (Seq (lit CHR '' '') (rng CHR ''1'' CHR ''9''))))))"

definition re_y :: regex where
  \<comment> \<open>\<open>%y\<close>: \<open>(\d\d)\<close>\<close>
  "re_y = Grp (Seq (Chr is_digit) (Chr is_digit))"

definition re_Y :: regex where
  \<comment> \<open>\<open>%Y\<close>: \<open>(\d\d\d\d)\<close>\<close>
  "re_Y = Grp (Seq (Chr is_digit) (Seq (Chr is_digit) (Seq (Chr is_digit) (Chr is_digit))))"

datatype format = MDy | MDY | Ymd

definition format_regex :: "format \<Rightarrow> regex" where
  "format_regex f =
     (case f of
        MDy \<Rightarrow> Seq re_m (Seq (lit CHR ''/'') (Seq re_d (Seq (lit CHR ''/'') re_y)))
      | MDY \<Rightarrow> Seq re_m (Seq (lit CHR ''/'') (Seq re_d (Seq (lit CHR ''/'') re_Y)))
      | Ymd \<Rightarrow> Seq re_Y (Seq (lit CHR ''-'') (Seq re_m (Seq (lit CHR ''-'') re_d))))"

definition field_int :: "string \<Rightarrow> int" where
  \<comment> \<open>\<open>int(group)\<close> of a matched field; \<open>%d\<close> may have matched a leading space\<close>
  "field_int s = digits_value (strip s)"

definition strptime :: "string \<Rightarrow> format \<Rightarrow> error + pydate" where
  \<comment> \<open>\<open>datetime.strptime(s, fmt).date()\<close>: the format's pattern must match at the start
      of \<open>s\<close> and its first match must use all of \<open>s\<close>; \<open>%y\<close> below 69 is 20yy\<close>
  "strptime s f =
     (case rx_match (format_regex f) s of
        [] \<Rightarrow> Inl ValueError
      | (g, rest) # _ \<Rightarrow>
          if rest \<noteq> [] then Inl ValueError
          else (case f of
                  MDy \<Rightarrow> (let y = field_int (g ! 2) in
                          make_date (if y \<le> 68 then y + 2000 else y + 1900)
                            (field_int (g ! 0)) (field_int (g ! 1)))
                | MDY \<Rightarrow> make_date (field_int (g ! 2)) (field_int (g ! 0)) (field_int (g ! 1))
                | Ymd \<Rightarrow> make_date (field_int (g ! 0)) (field_int (g ! 1)) (field_int (g ! 2))))"

fun try_formats :: "string \<Rightarrow> format list \<Rightarrow> pydate option" where
  \<comment> \<open>the loop of \<open>parse_date\<close>: an exception of \<open>strptime\<close> passes to the next format\<close>
  "try_formats s [] = None"
| "try_formats s (f # fs) =
     (case strptime s f of Inr d \<Rightarrow> Some d | Inl e \<Rightarrow> try_formats s fs)"

definition parse_date :: "string \<Rightarrow> pydate option" where
  "parse_date s = try_formats s [MDy, MDY, Ymd]"

section \<open>The document tree\<close>

text \<open>
  \<open>BeautifulSoup(html_bytes, "html.parser")\<close> is a call into a library: it returns a
  tree, or raises.  The tree is one of tags, each with its name, the list of its classes
  (empty when the tag has no \<open>class\<close> attribute) and its children, of text nodes,
  and of the strings that \<open>get_text\<close> leaves out (comments, doctypes, script and
  style text).  The document itself is the root tag.  The parser is not part of the
  program: \<open>extract_cards\<close> below is the code that runs on the tree the call returned,
  and \<open>extract_cards_bytes\<close> is the function on the uploaded bytes, the call included,
  with the parser as a parameter.
\<close>

datatype node =
    NavigableString string
  | Comment string
  | Tag string "string list" "node list"

fun descendants :: "node \<Rightarrow> node list" where
  \<comment> \<open>\<open>tag.descendants\<close>: every node below the tag, in document order\<close>
  "descendants (Tag nm cls ch) = concat (map (\<lambda>c. c # descendants c) ch)"
| "descendants (NavigableString s) = []"
| "descendants (Comment s) = []"

definition strings_of :: "node \<Rightarrow> string list" where
  "strings_of n = (case n of NavigableString s \<Rightarrow> [s] | _ \<Rightarrow> [])"

definition get_text :: "node \<Rightarrow> string" where
  \<comment> \<open>\<open>tag.get_text(" ", strip=True)\<close>: the stripped, non-empty text nodes, joined by a space\<close>
  "get_text t =
     join '' '' (filter (\<lambda>s. s \<noteq> []) (map strip (concat (map strings_of (descendants t)))))"

definition is_div :: "node \<Rightarrow> bool" where
  "is_div n = (case n of Tag nm cls ch \<Rightarrow> nm = ''div'' | _ \<Rightarrow> False)"

definition class_matches :: "string \<Rightarrow> string list \<Rightarrow> bool" where
  \<comment> \<open>\<open>class_=lambda c: c and c.startswith(p)\<close>: the library tries the function on each
      class of the tag, then on the whole attribute value\<close>
  "class_matches p cls =
     (list_ex (\<lambda>c. c \<noteq> [] \<and> startswith c p) cls
      \<or> (join '' '' cls \<noteq> [] \<and> startswith (join '' '' cls) p))"

definition div_with_class :: "string \<Rightarrow> node \<Rightarrow> bool" where
  "div_with_class p n =
     (case n of Tag nm cls ch \<Rightarrow> nm = ''div'' \<and> class_matches p cls | _ \<Rightarrow> False)"

definition find_all_outer :: "node \<Rightarrow> node list" where
  \<comment> \<open>\<open>soup.find_all("div", class_=lambda c: c and c.startswith("_outerWrapper_"))\<close>\<close>
  "find_all_outer soup = filter (div_with_class ''_outerWrapper_'') (descendants soup)"

definition find_header :: "node \<Rightarrow> node option" where
  \<comment> \<open>\<open>outer.find("div", class_=lambda c: c and c.startswith("_headerName_"))\<close>\<close>
  "find_header outer = find (div_with_class ''_headerName_'') (descendants outer)"

definition select_div_card :: "node \<Rightarrow> node list" where
  \<comment> \<open>\<open>outer.select("div.card")\<close>\<close>
  "select_div_card outer =
     filter (\<lambda>n. case n of Tag nm cls ch \<Rightarrow> nm = ''div'' \<and> ''card'' \<in> set cls | _ \<Rightarrow> False)
       (descendants outer)"

definition find_all_div :: "node \<Rightarrow> node list" where
  \<comment> \<open>\<open>outer.find_all("div", recursive=True)\<close>\<close>
  "find_all_div outer = filter is_div (descendants outer)"

definition candidates :: "node \<Rightarrow> node list" where
  \<comment> \<open>\<open>cards = outer.select("div.card") or outer.find_all("div", recursive=True)\<close>\<close>
  "candidates outer =
     (if select_div_card outer \<noteq> [] then select_div_card outer else find_all_div outer)"

section \<open>Card extraction\<close>

record card =
  column :: string
  text' :: string
  date :: pydate
  age :: int
  price :: "int option"

record pydatetime =
  dt_year :: int
  dt_month :: int
  dt_day :: int
  dt_hour :: nat
  dt_minute :: nat
  dt_second :: nat
  dt_microsecond :: nat

definition date_of :: "pydatetime \<Rightarrow> pydate" where
  \<comment> \<open>\<open>dt.date()\<close>\<close>
  "date_of dt = \<lparr>year = dt_year dt, month = dt_month dt, day = dt_day dt\<rparr>"

definition card_of :: "pydate \<Rightarrow> string \<Rightarrow> node \<Rightarrow> error + card option" where
  \<comment> \<open>the body of the loop over \<open>cards\<close>: \<open>Inr None\<close> is \<open>continue\<close>, \<open>Inr (Some c)\<close>
      is \<open>out.append(c)\<close>, \<open>Inl\<close> an exception that leaves \<open>extract_cards\<close>\<close>
  "card_of today col n =
     (let t = get_text n in
      if t = [] then Inr None
      else case group1 DATE_PAT t of
             None \<Rightarrow> Inr None
           | Some tok \<Rightarrow>
               (case parse_date tok of
                  None \<Rightarrow> Inr None
                | Some d \<Rightarrow>
                    (let a = days_between today d in
                     case group1 PRICE_PAT t of
                       None \<Rightarrow>
                         Inr (Some \<lparr>column = col, text' = t, date = d, age = a, price = None\<rparr>)
                     | Some g \<Rightarrow>
                         bind (py_int (filter (\<lambda>c. c \<noteq> CHR '','') g))
                           (\<lambda>p. Inr (Some \<lparr>column = col, text' = t, date = d, age = a,
                                            price = Some p\<rparr>)))))"

fun card_loop :: "pydate \<Rightarrow> string \<Rightarrow> node list \<Rightarrow> card list \<Rightarrow> error + card list" where
  "card_loop today col [] out = Inr out"
| "card_loop today col (n # ns) out =
     bind (card_of today col n)
       (\<lambda>r. card_loop today col ns (case r of None \<Rightarrow> out | Some c \<Rightarrow> out @ [c]))"

fun outer_loop :: "pydate \<Rightarrow> node list \<Rightarrow> card list \<Rightarrow> error + card list" where
  "outer_loop today [] out = Inr out"
| "outer_loop today (outer # os) out =
     (case find_header outer of
        None \<Rightarrow> outer_loop today os out
      | Some header \<Rightarrow>
          bind (card_loop today (get_text header) (candidates outer) out)
            (outer_loop today os))"

definition extract_cards :: "pydatetime \<Rightarrow> node \<Rightarrow> error + card list" where
  \<comment> \<open>\<open>now\<close> is what \<open>datetime.now(timezone.utc)\<close> returns, read once; \<open>soup\<close> is the
      parsed document\<close>
  "extract_cards now soup = outer_loop (date_of now) (find_all_outer soup) []"



section \<open>Numbers\<close>

text \<open>
  The averages are Python numbers: an \<open>int\<close>, or a \<open>float\<close>.  A float is modelled by
  the rational number it denotes, and the operations round as binary64 does: to 53
  significant bits, ties to even, exponents down to \<open>-1074\<close>, and an error from
  \<open>2 ^ 1024\<close> on.  The sign of a zero is not modelled.
\<close>

datatype pynum = PyInt int | PyFloat rat

definition num_val :: "pynum \<Rightarrow> rat" where
  "num_val v = (case v of PyInt i \<Rightarrow> of_int i | PyFloat x \<Rightarrow> x)"

definition py_eq :: "pynum \<Rightarrow> pynum \<Rightarrow> bool" where
  \<comment> \<open>\<open>a == b\<close> on numbers compares the values\<close>
  "py_eq a b = (num_val a = num_val b)"

definition round_half_even :: "int \<Rightarrow> int \<Rightarrow> int" where
  \<comment> \<open>the integer nearest to \<open>a / b\<close> for \<open>b > 0\<close>, a tie going to the even one\<close>
  "round_half_even a b =
     (let f = a div b; r = a mod b in
      if 2 * r < b then f else if b < 2 * r then f + 1 else if even f then f else f + 1)"

definition ilog2 :: "int \<Rightarrow> int \<Rightarrow> int" where
  \<comment> \<open>\<open>\<lfloor>log\<^sub>2 (p / q)\<rfloor>\<close> for \<open>p, q > 0\<close>\<close>
  "ilog2 p q =
     (let d = bitlen p - bitlen q in
      if (if 0 \<le> d then q * 2 ^ nat d \<le> p else q \<le> p * 2 ^ nat (- d)) then d else d - 1)"

definition float_div :: "int \<Rightarrow> int \<Rightarrow> error + rat" where
  \<comment> \<open>the float nearest to \<open>p / q\<close> for \<open>q > 0\<close>: true division of two ints, and
      \<open>float\<close> of a \<open>Fraction\<close>\<close>
  "float_div p q =
     (if p = 0 then Inr 0
      else let e = max (ilog2 \<bar>p\<bar> q - 52) (- 1074);
               m = (if 0 \<le> e then round_half_even \<bar>p\<bar> (q * 2 ^ nat e)
                    else round_half_even (\<bar>p\<bar> * 2 ^ nat (- e)) q)
           in if 1024 < bitlen m + e then Inl OverflowError
              else Inr (of_int (sgn p * m)
                         * (if 0 \<le> e then 2 ^ nat e else 1 / 2 ^ nat (- e))))"

definition round2 :: "rat \<Rightarrow> error + rat" where
  \<comment> \<open>\<open>round(x, 2)\<close> of a float: the decimal with two places nearest to the exact value
      of \<open>x\<close>, ties to even, read back as a float\<close>
  "round2 x = (case quotient_of x of (n, d) \<Rightarrow> float_div (round_half_even (100 * n) d) 100)"

definition py_round2 :: "pynum \<Rightarrow> error + pynum" where
  \<comment> \<open>\<open>round(v, 2)\<close>: an \<open>int\<close> is returned as it is\<close>
  "py_round2 v =
     (case v of PyInt i \<Rightarrow> Inr (PyInt i) | PyFloat x \<Rightarrow> bind (round2 x) (\<lambda>y. Inr (PyFloat y)))"

definition mean :: "int list \<Rightarrow> error + pynum" where
  \<comment> \<open>\<open>statistics.mean\<close> of a non-empty list of ints: the exact quotient, an \<open>int\<close> when
      it is whole and the nearest float otherwise\<close>
  "mean xs =
     (let s = sum_list xs; n = int (length xs) in
      if s mod n = 0 then Inr (PyInt (s div n))
      else bind (float_div s n) (\<lambda>x. Inr (PyFloat x)))"

definition avg :: "int list \<Rightarrow> error + pynum" where
  "avg xs = (if xs \<noteq> [] then bind (mean xs) py_round2 else Inr (PyFloat 0))"

section \<open>The report\<close>

definition EXCLUDED_COLUMNS_FOR_AGE :: "string set" where
  "EXCLUDED_COLUMNS_FOR_AGE = {''Completed'', ''Canceled'', ''New Parts Request''}"

definition REQUESTED_LANES :: "string list" where
  "REQUESTED_LANES =
     [''Receipt Confirmed <7 days'', ''Aging >7 Days'', ''Stale >14 Days'',
      ''Assigned to Department'', ''Parts Ordered'', ''Arrived/In-Hand'',
      ''Contacted'', ''Customer Unreachable'', ''Scheduled'']"

definition FOCUSED_LABELS :: "string list" where
  "FOCUSED_LABELS =
     [''Demand Repair'', ''Install'', ''Dispatch'',
      ''NOT COOLING/HEATING'', ''Warranty'', ''Comfort Shield Warranty'']"

definition ALL_LABELS :: "string list" where
  "ALL_LABELS =
     [''Backordered'', ''Warranty'', ''Escalation'', ''Prepaid Service'', ''COSTCO ESCALATION'',
      ''Demand Repair'', ''1st Year Warranty'', ''Install'', ''Comfort Shield Warranty'', ''Recall'',
      ''Schedule Return Visit'', ''Electrical'', ''Duct Cleaning'', ''Senior Tech Callback'',
      ''Commercial'', ''Possible Payment Issue'', ''Replacement Opp'', ''Manager Visit'',
      ''Damage Claim'', ''NOT COOLING/HEATING'', ''Multiple Systems'', ''Missing Quote'',
      ''READY TO SCHEDULE'', ''Missing Parts'', ''URGENT'', ''Dispatch'', ''ISR - Service'',
      ''Aging Card'', ''In Service Recovery - Stale'', ''Call Customer'', ''Check Warranty'',
      ''Plumbing'', ''Truck Stock'', ''Multiple Parts Request'']"

record scope_row =
  Scope :: string
  Scope_Count :: nat
  Scope_Average_Age :: pynum

record lane_row =
  Lane :: string
  Lane_Count :: nat
  Lane_Average_Age :: pynum

record label_row =
  Label :: string
  Label_Count :: nat
  Label_Average_Age :: pynum

record quoted_row =
  Total_Value_Count :: nat
  Total_Value :: int
  Average_Value :: pynum
  Total_Won_Count :: nat
  Total_Won :: int
  Average_Won :: pynum
  Total_Lost_Count :: nat
  Total_Lost :: int
  Average_Lost :: pynum

record report =
  scope :: "scope_row list"
  lanes :: "lane_row list"
  quoted :: quoted_row
  all_labels :: "label_row list"

definition label_ages :: "card list \<Rightarrow> string \<Rightarrow> int list" where
  \<comment> \<open>\<open>[c["age"] for c in active if lbl.lower() in c["text"].lower()]\<close>\<close>
  "label_ages active lbl =
     map age (filter (\<lambda>c. contains (lower (text' c)) (lower lbl)) active)"

definition avg_or_0 :: "int list \<Rightarrow> error + pynum" where
  \<comment> \<open>\<open>avg(xs) if xs else 0\<close>\<close>
  "avg_or_0 xs = (if xs \<noteq> [] then avg xs else Inr (PyInt 0))"

definition sum_or_0 :: "int list \<Rightarrow> int" where
  \<comment> \<open>\<open>sum(xs) if xs else 0\<close>\<close>
  "sum_or_0 xs = (if xs \<noteq> [] then sum_list xs else 0)"

fun scope_loop :: "card list \<Rightarrow> string list \<Rightarrow> scope_row list \<Rightarrow> error + scope_row list" where
  "scope_loop active [] rows = Inr rows"
| "scope_loop active (lbl # ls) rows =
     (let ages = label_ages active lbl in
      bind (avg_or_0 ages)
        (\<lambda>a. scope_loop active ls
               (rows @ [\<lparr>Scope = lbl, Scope_Count = length ages, Scope_Average_Age = a\<rparr>])))"

fun lane_loop :: "card list \<Rightarrow> string list \<Rightarrow> lane_row list \<Rightarrow> error + lane_row list" where
  "lane_loop cards [] rows = Inr rows"
| "lane_loop cards (lane # ls) rows =
     (let ages = map age (filter (\<lambda>c. column c = lane) cards) in
      if ages \<noteq> [] then
        bind (avg ages)
          (\<lambda>a. lane_loop cards ls
                 (rows @ [\<lparr>Lane = lane, Lane_Count = length ages, Lane_Average_Age = a\<rparr>]))
      else lane_loop cards ls rows)"

fun label_loop :: "card list \<Rightarrow> string list \<Rightarrow> label_row list \<Rightarrow> error + label_row list" where
  "label_loop active [] rows = Inr rows"
| "label_loop active (lbl # ls) rows =
     (let ages = label_ages active lbl in
      bind (avg_or_0 ages)
        (\<lambda>a. label_loop active ls
               (rows @ [\<lparr>Label = lbl, Label_Count = length ages, Label_Average_Age = a\<rparr>])))"

definition prices_of :: "card list \<Rightarrow> int list" where
  \<comment> \<open>\<open>[c["price"] for c in cs if c["price"] is not None]\<close>\<close>
  "prices_of cs = map (\<lambda>c. the (price c)) (filter (\<lambda>c. price c \<noteq> None) cs)"

definition build_report :: "card list \<Rightarrow> error + report" where
  \<comment> \<open>the four tables \<open>build_report\<close> computes; writing them to the workbook is left to
      the spreadsheet library and not modelled\<close>
  "build_report cards =
     (let active = filter (\<lambda>c. column c \<notin> EXCLUDED_COLUMNS_FOR_AGE) cards in
      bind (avg (map age active)) (\<lambda>a0.
      bind (scope_loop active FOCUSED_LABELS
              [\<lparr>Scope = ''All cards (excluding Completed/Canceled)'',
                Scope_Count = length active, Scope_Average_Age = a0\<rparr>]) (\<lambda>scope_rows.
      bind (lane_loop cards REQUESTED_LANES []) (\<lambda>lane_rows.
      let active_prices = prices_of active;
          completed_prices = prices_of (filter (\<lambda>c. column c = ''Completed'') cards);
          canceled_prices = prices_of (filter (\<lambda>c. column c = ''Canceled'') cards)
      in
      bind (avg_or_0 active_prices) (\<lambda>av.
      bind (avg_or_0 completed_prices) (\<lambda>aw.
      bind (avg_or_0 canceled_prices) (\<lambda>al.
      bind (if ALL_LABELS \<noteq> [] then label_loop active ALL_LABELS [] else Inr [])
        (\<lambda>all_label_rows.
      Inr \<lparr>scope = scope_rows, lanes = lane_rows,
           quoted = \<lparr>Total_Value_Count = length active_prices,
                      Total_Value = sum_or_0 active_prices,
                      Average_Value = av,
                      Total_Won_Count = length completed_prices,
                      Total_Won = sum_or_0 completed_prices,
                      Average_Won = aw,
                      Total_Lost_Count = length canceled_prices,
                      Total_Lost = sum_or_0 canceled_prices,
                      Average_Lost = al\<rparr>,
           all_labels = all_label_rows\<rparr>))))))))"

definition analyze :: "pydatetime \<Rightarrow> node \<Rightarrow> error + report" where
  \<comment> \<open>the two calls of the upload handler: \<open>cards = extract_cards(html)\<close>, then
      \<open>build_report(cards)\<close>\<close>
  "analyze now soup = bind (extract_cards now soup) build_report"


section \<open>Example inputs\<close>

definition now0 :: pydatetime where
  \<comment> \<open>12 January 2023, 09:30 UTC\<close>
  "now0 = \<lparr>dt_year = 2023, dt_month = 1, dt_day = 12, dt_hour = 9, dt_minute = 30,
            dt_second = 0, dt_microsecond = 0\<rparr>"

definition column_doc :: "string \<Rightarrow> string list \<Rightarrow> node" where
  \<comment> \<open>a board of one column: its header, and one \<open>div.card\<close> for each text\<close>
  "column_doc name texts =
     Tag ''[document]'' []
       [Tag ''div'' [''_outerWrapper_1a2b'']
          (Tag ''div'' [''_headerName_3c4d''] [NavigableString name]
           # map (\<lambda>t. Tag ''div'' [''card''] [NavigableString t]) texts)]"

definition cards0 :: "card list" where
  \<comment> \<open>three cards: two in open lanes, one completed\<close>
  "cards0 =
     [\<lparr>column = ''Parts Ordered'', text' = ''Install Received: 01/02/23 Quoted Price $1,200'',
       date = \<lparr>year = 2023, month = 1, day = 2\<rparr>, age = 10, price = Some 1200\<rparr>,
      \<lparr>column = ''Completed'', text' = ''Received: 01/09/23 Quoted Price 300'',
       date = \<lparr>year = 2023, month = 1, day = 9\<rparr>, age = 3, price = Some 300\<rparr>,
      \<lparr>column = ''Scheduled'', text' = ''Received: 01/01/23 Quoted Price: 301'',
       date = \<lparr>year = 2023, month = 1, day = 1\<rparr>, age = 11, price = Some 301\<rparr>]"



definition dated :: "node \<Rightarrow> bool" where
  \<comment> \<open>the text of the node is not empty and holds a \<open>Received\<close> date that parses\<close>
  "dated n =
     (get_text n \<noteq> [] \<and>
      (case group1 DATE_PAT (get_text n) of None \<Rightarrow> False | Some tok \<Rightarrow> parse_date tok \<noteq> None))"

definition emitted_by :: "pydate \<Rightarrow> node \<Rightarrow> card \<Rightarrow> bool" where
  \<comment> \<open>the column has a header, and the loop body appends \<open>c\<close> for one of its candidates\<close>
  "emitted_by today outer c =
     (\<exists>h. find_header outer = Some h
        \<and> (\<exists>n\<in>set (candidates outer). card_of today (get_text h) n = Inr (Some c)))"



definition price_doc :: node where
  "price_doc = column_doc ''Scheduled'' [''Received: 01/02/23 Quoted Price 1,2'']"

primrec nest :: "nat \<Rightarrow> node \<Rightarrow> node" where
  \<comment> \<open>\<open>n\<close> wrapped in \<open>k\<close> divs without a class\<close>
  "nest 0 n = n"
| "nest (Suc k) n = Tag ''div'' [] [nest k n]"

definition plain_card :: node where
  "plain_card = Tag ''div'' [] [NavigableString ''Received: 01/02/23'']"

definition nested_doc :: "nat \<Rightarrow> node" where
  \<comment> \<open>a column without \<open>div.card\<close>: its header, and one dated card inside \<open>k\<close> divs\<close>
  "nested_doc k =
     Tag ''[document]'' []
       [Tag ''div'' [''_outerWrapper_1a2b'']
          [Tag ''div'' [''_headerName_3c4d''] [NavigableString ''Scheduled''],
           nest k plain_card]]"

definition nested_card :: card where
  "nested_card =
     \<lparr>column = ''Scheduled'', text' = ''Received: 01/02/23'',
      date = \<lparr>year = 2023, month = 1, day = 2\<rparr>, age = 10, price = None\<rparr>"

definition header_doc :: node where
  \<comment> \<open>a column without cards, whose header text holds a date\<close>
  "header_doc =
     Tag ''[document]'' []
       [Tag ''div'' [''_outerWrapper_1a2b'']
          [Tag ''div'' [''_headerName_3c4d''] [NavigableString ''Scheduled (received 1/2/23)'']]]"

definition round_quotient2 :: "int \<Rightarrow> nat \<Rightarrow> error + pynum" where
  \<comment> \<open>the expression \<open>round(sum / count, 2)\<close>: true division of two ints, then \<open>round\<close>\<close>
  "round_quotient2 s n = bind (float_div s (int n)) (\<lambda>x. bind (round2 x) (\<lambda>y. Inr (PyFloat y)))"

definition mean_consistent :: "nat \<Rightarrow> int \<Rightarrow> pynum \<Rightarrow> bool" where
  \<comment> \<open>count, sum and mean of one population agree: \<open>mean == round(sum / count, 2)\<close>
      for a positive count, and sum and mean are \<open>0\<close> for the count 0\<close>
  "mean_consistent n s m =
     (if 0 < n then (case round_quotient2 s n of Inr v \<Rightarrow> py_eq m v | Inl e \<Rightarrow> False)
      else s = 0 \<and> m = PyInt 0)"

definition whole_beyond_float :: "nat \<Rightarrow> int \<Rightarrow> bool" where
  \<comment> \<open>the quotient \<open>sum / count\<close> is a whole number above \<open>2 ^ 53\<close> in magnitude\<close>
  "whole_beyond_float n s = (0 < n \<and> s mod int n = 0 \<and> 2 ^ 53 < \<bar>s div int n\<bar>)"

definition round_half_up :: "int \<Rightarrow> int \<Rightarrow> int" where
  \<comment> \<open>the integer nearest to \<open>a / b\<close> for \<open>b > 0\<close>, a tie going up\<close>
  "round_half_up a b = (2 * a + b) div (2 * b)"

definition hundredths :: "(int \<Rightarrow> int \<Rightarrow> int) \<Rightarrow> int list \<Rightarrow> int" where
  \<comment> \<open>the arithmetic mean of \<open>xs\<close> rounded to 2 decimal places, counted in hundredths;
      \<open>rnd\<close> says where a tie goes\<close>
  "hundredths rnd xs = rnd (100 * sum_list xs) (int (length xs))"

definition away_from_tie :: "int list \<Rightarrow> bool" where
  \<comment> \<open>\<open>100 * mean\<close> is farther from the nearest half-integer than the rounding of the
      mean to a float can move it, which is \<open>100 * \<bar>mean\<bar> / 2 ^ 53\<close> at most\<close>
  "away_from_tie xs =
     (let mu = of_int (sum_list xs) / of_int (int (length xs)) :: rat in
      \<bar>of_int (hundredths round_half_even xs) - 100 * mu\<bar> + 100 * \<bar>mu\<bar> / 2 ^ 53 < 1 / 2)"

definition tie_cards :: "card list" where
  \<comment> \<open>forty open cards, one 107 days old and the others received today: the mean age is
      \<open>2.675\<close>\<close>
  "tie_cards =
     \<lparr>column = ''Scheduled'', text' = ''Received: 09/27/22'',
      date = \<lparr>year = 2022, month = 9, day = 27\<rparr>, age = 107, price = None\<rparr>
     # replicate 39
         \<lparr>column = ''Scheduled'', text' = ''Received: 01/12/23'',
          date = \<lparr>year = 2023, month = 1, day = 12\<rparr>, age = 0, price = None\<rparr>"

definition tie_doc :: node where
  \<comment> \<open>the board that holds those cards on 12 January 2023\<close>
  "tie_doc = column_doc ''Scheduled'' (''Received: 09/27/22'' # replicate 39 ''Received: 01/12/23'')"

definition big_price_cards :: "card list" where
  \<comment> \<open>one card, priced \<open>2 ^ 53 + 1\<close>\<close>
  "big_price_cards =
     [\<lparr>column = ''Scheduled'', text' = ''Received: 01/02/23 Quoted Price 9007199254740993'',
       date = \<lparr>year = 2023, month = 1, day = 2\<rparr>, age = 10,
       price = Some 9007199254740993\<rparr>]"

primrec group_free :: "regex \<Rightarrow> bool" where
  \<comment> \<open>the expression has no capture group\<close>
  "group_free Eps = True"
| "group_free (Chr p) = True"
| "group_free (Seq a b) = (group_free a \<and> group_free b)"
| "group_free (Alt a b) = (group_free a \<and> group_free b)"
| "group_free (Rep lo hi p) = True"
| "group_free (Grp a) = False"

section \<open>Properties\<close>

lemma bind_Inr_iff: "bind m f = Inr y \<longleftrightarrow> (\<exists>x. m = Inr x \<and> f x = Inr y)"
  by (cases m) (simp_all add: bind_def)

subsection \<open>Floats\<close>

lemma round_half_even_exact: "0 < b \<Longrightarrow> round_half_even (a * b) b = a"
  by (simp add: round_half_even_def)

lemma round_half_even_scale:
  assumes "0 < c" "0 < b"
  shows "round_half_even (c * a) (c * b) = round_half_even a b"
proof -
  have dv: "(c * a) div (c * b) = a div b" and md: "(c * a) mod (c * b) = c * (a mod b)"
    using assms by simp_all
  have lt: "2 * (c * r) < c * b \<longleftrightarrow> 2 * r < b" "c * b < 2 * (c * r) \<longleftrightarrow> b < 2 * r" for r
    using assms(1) by (simp_all add: mult.left_commute [of 2 c])
  show ?thesis
    unfolding round_half_even_def Let_def dv md lt ..
qed

lemma bitlen_powi:
  assumes "0 < p"
  shows "(2::rat) powi (bitlen p - 1) \<le> of_int p" "(of_int p :: rat) < 2 powi (bitlen p)"
proof -
  from bitlen_bounds [OF assms] have a: "2 ^ nat (bitlen p - 1) \<le> p" and b: "p < 2 ^ nat (bitlen p)"
    by simp_all
  have ge: "1 \<le> bitlen p"
    using assms bitlen_eq_zero_iff [of p] bitlen_nonneg [of p] by linarith
  from a have "(of_int (2 ^ nat (bitlen p - 1)) :: rat) \<le> of_int p"
    by (simp only: of_int_le_iff)
  then show "(2::rat) powi (bitlen p - 1) \<le> of_int p"
    using ge by (simp add: power_int_def)
  from b have "(of_int p :: rat) < of_int (2 ^ nat (bitlen p))"
    by (simp only: of_int_less_iff)
  then show "(of_int p :: rat) < 2 powi (bitlen p)"
    using ge by (simp add: power_int_def)
qed

lemma ilog2_test:
  assumes "0 < p" "0 < q"
  shows "(if 0 \<le> d then q * 2 ^ nat d \<le> p else q \<le> p * 2 ^ nat (- d))
           \<longleftrightarrow> (of_int q :: rat) * 2 powi d \<le> of_int p"
proof (cases "0 \<le> d")
  case True
  have "(of_int q :: rat) * 2 powi d = of_int (q * 2 ^ nat d)"
    using True by (simp add: power_int_def)
  then show ?thesis using True by (simp only: of_int_le_iff if_True)
next
  case False
  then have "(2::rat) powi d = 1 / 2 ^ nat (- d)"
    by (simp add: power_int_def inverse_eq_divide power_one_over)
  then have "(of_int q :: rat) * 2 powi d \<le> of_int p \<longleftrightarrow> (of_int q :: rat) \<le> of_int (p * 2 ^ nat (- d))"
    by (simp add: pos_divide_le_eq)
  then show ?thesis using False by (simp only: of_int_le_iff if_False)
qed

lemma ilog2_bounds:
  assumes "0 < p" "0 < q"
  shows "(of_int q :: rat) * 2 powi (ilog2 p q) \<le> of_int p"
    and "(of_int p :: rat) < of_int q * 2 powi (ilog2 p q + 1)"
proof -
  define d where "d = bitlen p - bitlen q"
  note bp = bitlen_powi [OF assms(1)] and bq = bitlen_powi [OF assms(2)]
  have q0: "(0::rat) < of_int q" using assms by simp
  have split: "(2::rat) powi (bitlen p) = 2 powi (bitlen q - 1) * 2 powi (d + 1)"
    "(2::rat) powi (bitlen p - 1) = 2 powi (bitlen q) * 2 powi (d - 1)"
    by (simp_all add: d_def flip: power_int_add)
  have up: "(of_int p :: rat) < of_int q * 2 powi (d + 1)"
  proof -
    have "(of_int p :: rat) < 2 powi (bitlen q - 1) * 2 powi (d + 1)"
      using bp(2) split(1) by simp
    also have "\<dots> \<le> of_int q * 2 powi (d + 1)"
      using bq(1) by (intro mult_right_mono) simp_all
    finally show ?thesis .
  qed
  have lo: "(of_int q :: rat) * 2 powi (d - 1) \<le> of_int p"
  proof -
    have "(of_int q :: rat) * 2 powi (d - 1) \<le> 2 powi (bitlen q) * 2 powi (d - 1)"
      using bq(2) by (intro mult_right_mono) simp_all
    also have "\<dots> \<le> of_int p"
      using bp(1) split(2) by simp
    finally show ?thesis .
  qed
  show "(of_int q :: rat) * 2 powi (ilog2 p q) \<le> of_int p"
    using lo ilog2_test [OF assms, of d] by (simp add: ilog2_def Let_def d_def [symmetric])
  show "(of_int p :: rat) < of_int q * 2 powi (ilog2 p q + 1)"
    using up ilog2_test [OF assms, of d] by (auto simp: ilog2_def Let_def d_def [symmetric])
qed

lemma powi_bracket_unique:
  assumes "(2::rat) powi k \<le> x" "x < 2 powi (k + 1)" "(2::rat) powi j \<le> x" "x < 2 powi (j + 1)"
  shows "k = j"
proof (rule ccontr)
  assume "k \<noteq> j"
  then consider "k + 1 \<le> j" | "j + 1 \<le> k" by linarith
  then show False
  proof cases
    case 1
    then have "(2::rat) powi (k + 1) \<le> 2 powi j"
      by (intro power_int_increasing) simp_all
    with assms show False by linarith
  next
    case 2
    then have "(2::rat) powi (j + 1) \<le> 2 powi k"
      by (intro power_int_increasing) simp_all
    with assms show False by linarith
  qed
qed

lemma ilog2_unique:
  assumes "0 < p" "0 < q" "(of_int q :: rat) * 2 powi k \<le> of_int p"
    "(of_int p :: rat) < of_int q * 2 powi (k + 1)"
  shows "ilog2 p q = k"
proof -
  have q0: "(0::rat) < of_int q" using assms by simp
  have a: "(2::rat) powi k \<le> of_int p / of_int q" and b: "(of_int p :: rat) / of_int q < 2 powi (k + 1)"
    using assms(3,4) q0 by (simp_all add: pos_le_divide_eq pos_divide_less_eq mult.commute)
  have c: "(2::rat) powi (ilog2 p q) \<le> of_int p / of_int q"
    and d: "(of_int p :: rat) / of_int q < 2 powi (ilog2 p q + 1)"
    using ilog2_bounds [OF assms(1,2)] q0
    by (simp_all add: pos_le_divide_eq pos_divide_less_eq mult.commute)
  show ?thesis
    by (rule powi_bracket_unique [OF c d a b])
qed

lemma ilog2_scale:
  assumes "0 < c" "0 < p" "0 < q"
  shows "ilog2 (c * p) (c * q) = ilog2 p q"
proof (rule ilog2_unique)
  show "0 < c * p" "0 < c * q" using assms by simp_all
  have c0: "(0::rat) < of_int c" using assms by simp
  from ilog2_bounds [OF assms(2,3)] c0
  show "(of_int (c * q) :: rat) * 2 powi (ilog2 p q) \<le> of_int (c * p)"
    "(of_int (c * p) :: rat) < of_int (c * q) * 2 powi (ilog2 p q + 1)"
    by (simp_all add: mult.assoc)
qed

lemma float_div_scale:
  assumes "0 < c" "0 < q"
  shows "float_div (c * p) (c * q) = float_div p q"
proof (cases "p = 0")
  case True
  then show ?thesis by (simp add: float_div_def)
next
  case False
  then have p: "0 < \<bar>p\<bar>" by simp
  have abs: "\<bar>c * p\<bar> = c * \<bar>p\<bar>" using assms(1) by (simp add: abs_mult)
  have sg: "sgn (c * p) = sgn p" using assms(1) by (simp add: sgn_mult)
  have e: "ilog2 (c * \<bar>p\<bar>) (c * q) = ilog2 \<bar>p\<bar> q"
    by (rule ilog2_scale [OF assms(1) p assms(2)])
  have r1: "round_half_even (c * \<bar>p\<bar>) (c * q * 2 ^ n) = round_half_even \<bar>p\<bar> (q * 2 ^ n)" for n
    using round_half_even_scale [OF assms(1), of "q * 2 ^ n" "\<bar>p\<bar>"] assms(2)
    by (simp add: mult.assoc)
  have r2: "round_half_even (c * \<bar>p\<bar> * 2 ^ n) (c * q) = round_half_even (\<bar>p\<bar> * 2 ^ n) q" for n
    using round_half_even_scale [OF assms, of "\<bar>p\<bar> * 2 ^ n"]
    by (simp add: mult.assoc)
  from False assms(1) have "c * p \<noteq> 0" by simp
  then show ?thesis
    using False by (simp only: float_div_def abs sg e r1 r2 if_False)
qed

lemma float_div_int:
  assumes "\<bar>N\<bar> \<le> 2 ^ 53"
  shows "float_div N 1 = Inr (of_int N)"
proof (cases "N = 0")
  case True
  then show ?thesis by (simp add: float_div_def)
next
  case False
  define a where "a = \<bar>N\<bar>"
  define k where "k = ilog2 a 1"
  have a: "0 < a" "a \<le> 2 ^ 53" "sgn N * a = N"
    using False assms by (simp_all add: a_def mult_sgn_abs)
  from ilog2_bounds [OF a(1), of 1]
  have lo: "(2::rat) powi k \<le> of_int a" and hi: "(of_int a :: rat) < 2 powi (k + 1)"
    by (simp_all add: k_def)
  have k0: "0 \<le> k"
  proof (rule ccontr)
    assume "\<not> 0 \<le> k"
    then have "(2::rat) powi (k + 1) \<le> 2 powi 0"
      by (intro power_int_increasing) simp_all
    with hi have "(of_int a :: rat) < 1" by simp
    with a(1) show False by simp
  qed
  have k53: "k \<le> 53"
  proof (rule ccontr)
    assume "\<not> k \<le> 53"
    then have "(2::rat) powi 54 \<le> 2 powi k"
      by (intro power_int_increasing) simp_all
    with lo have "(2::rat) ^ 54 \<le> of_int a" by simp
    then have "(of_int (2 ^ 54) :: rat) \<le> of_int a" by simp
    then have "(2::int) ^ 54 \<le> a" by (simp only: of_int_le_iff)
    with a(2) show False by simp
  qed
  from lo k0 have "(of_int (2 ^ nat k) :: rat) \<le> of_int a"
    by (simp add: power_int_def)
  then have lo': "2 ^ nat k \<le> a" by (simp only: of_int_le_iff)
  from hi k0 have "(of_int a :: rat) < of_int (2 ^ nat (k + 1))"
    by (simp add: power_int_def)
  then have hi': "a < 2 ^ nat (k + 1)" by (simp only: of_int_less_iff)
  have e: "max (k - 52) (- 1074) = k - 52" using k0 by simp
  consider "k \<le> 51" | "k = 52" | "k = 53" using k53 by linarith
  then show ?thesis
  proof cases
    case 1
    define n where "n = nat (52 - k)"
    have n: "nat (- (k - 52)) = n" by (simp add: n_def)
    have "a * 2 ^ n < 2 ^ nat (k + 1) * 2 ^ n"
      using hi' by simp
    also have "\<dots> = 2 ^ 53"
      using 1 k0 by (simp add: n_def flip: power_add, simp add: nat_add_distrib [symmetric])
    finally have "a * 2 ^ n < 2 ^ nat 53" by simp
    then have "bitlen (a * 2 ^ n) \<le> 53"
      by (simp only: bitlen_le_iff_power) simp
    then have ok: "\<not> 1024 < bitlen (a * 2 ^ n) + (k - 52)"
      using 1 by linarith
    have neg: "\<not> 0 \<le> k - 52" using 1 by simp
    have m: "round_half_even (a * 2 ^ n) 1 = a * 2 ^ n"
      using round_half_even_exact [of 1 "a * 2 ^ n"] by simp
    have val: "(of_int (sgn N * (a * 2 ^ n)) :: rat) * (1 / 2 ^ n) = of_int N"
    proof -
      have "sgn N * (a * 2 ^ n) = N * 2 ^ n"
        using a(3) by (simp add: mult.assoc [symmetric])
      then have "(of_int (sgn N * (a * 2 ^ n)) :: rat) = of_int N * 2 ^ n"
        by (simp only: of_int_mult of_int_power of_int_numeral)
      then show ?thesis by (simp only:) simp
    qed
    show ?thesis
      using False
      by (simp only: float_div_def Let_def a_def [symmetric] k_def [symmetric] e neg n m ok val
          if_False)
  next
    case 2
    have "a < 2 ^ nat 53" using hi' 2 by simp
    then have "bitlen a \<le> 53"
      by (simp only: bitlen_le_iff_power) simp
    then have ok: "\<not> 1024 < bitlen a + (k - 52)"
      using 2 by linarith
    have m: "round_half_even a (1 * 2 ^ nat (k - 52)) = a"
      using round_half_even_exact [of 1 a] 2 by simp
    have val: "(of_int (sgn N * a) :: rat) * 2 ^ nat (k - 52) = of_int N"
      using a(3) 2 by simp
    have pos: "0 \<le> k - 52" using 2 by simp
    show ?thesis
      using False
      by (simp only: float_div_def Let_def a_def [symmetric] k_def [symmetric] e pos m ok val
          if_False if_True)
  next
    case 3
    have "2 ^ 53 \<le> a" using lo' 3 by simp
    with a(2) have a53: "a = 2 ^ 53" by simp
    have m: "round_half_even a (1 * 2 ^ nat (k - 52)) = 2 ^ 52"
      using round_half_even_exact [of 2 "2 ^ 52"] 3 a53 by simp
    have "bitlen ((2::int) ^ 52) = 53"
      using bitlen_pow2 [of 1 52] by (simp add: compute_bitlen [of 1])
    then have ok: "\<not> 1024 < bitlen ((2::int) ^ 52) + (k - 52)"
      using 3 by simp
    have "sgn N * 2 ^ 52 * 2 = sgn N * a" by (simp add: a53)
    then have "sgn N * 2 ^ 52 * 2 = N" using a(3) by simp
    then have "(of_int (sgn N * 2 ^ 52 * 2) :: rat) = of_int N" by simp
    then have val: "(of_int (sgn N * 2 ^ 52) :: rat) * 2 ^ nat (k - 52) = of_int N"
      using 3 by simp
    have pos: "0 \<le> k - 52" using 3 by simp
    show ?thesis
      using False
      by (simp only: float_div_def Let_def a_def [symmetric] k_def [symmetric] e pos m ok val
          if_False if_True)
  qed
qed

lemma float_div_exact:
  assumes "0 < q" "\<bar>N\<bar> \<le> 2 ^ 53"
  shows "float_div (N * q) q = Inr (of_int N)"
  using float_div_scale [of q 1 N] float_div_int [OF assms(2)] assms(1)
  by (simp add: mult.commute)

lemma round2_int:
  assumes "\<bar>N\<bar> \<le> 2 ^ 53"
  shows "round2 (of_int N) = Inr (of_int N)"
proof -
  have "quotient_of (of_int N) = (N, 1)"
    by (metis Rat.of_int_def quotient_of_int)
  moreover have "round_half_even (100 * N) 1 = 100 * N"
    using round_half_even_exact [of 1 "100 * N"] by simp
  moreover have "float_div (100 * N) 100 = Inr (of_int N)"
    using float_div_exact [OF _ assms, of 100] by (simp add: mult.commute)
  ultimately show ?thesis
    by (simp add: round2_def)
qed

lemma round_half_even_error:
  assumes "0 < b"
  shows "\<bar>of_int (round_half_even a b) - (of_int a / of_int b :: rat)\<bar> \<le> 1 / 2"
proof -
  define f where "f = a div b"
  define r where "r = a mod b"
  have r: "0 \<le> r" "r < b" and a: "a = f * b + r"
    using assms by (simp_all add: f_def r_def)
  have b0: "(0::rat) < of_int b" using assms by simp
  have quot: "(of_int a / of_int b :: rat) = of_int f + of_int r / of_int b"
    using b0 by (simp add: a field_simps)
  have r0: "(0::rat) \<le> of_int r / of_int b" using r(1) b0 by simp
  have r1: "(of_int r :: rat) / of_int b < 1" using r(2) b0 by simp
  consider "2 * r < b" | "b < 2 * r" | "2 * r = b" by linarith
  then show ?thesis
  proof cases
    case 1
    then have "(of_int (2 * r) :: rat) < of_int b" by (simp only: of_int_less_iff)
    then have "(of_int r :: rat) / of_int b < 1 / 2" using b0 by (simp add: field_simps)
    moreover have "round_half_even a b = f"
      using 1 by (simp add: round_half_even_def f_def r_def)
    ultimately show ?thesis using r0 by (simp add: quot)
  next
    case 2
    then have "(of_int b :: rat) < of_int (2 * r)" by (simp only: of_int_less_iff)
    then have "1 / 2 < (of_int r :: rat) / of_int b" using b0 by (simp add: field_simps)
    moreover have "round_half_even a b = f + 1"
      using 2 by (simp add: round_half_even_def f_def r_def Let_def)
    ultimately show ?thesis using r1 by (simp add: quot)
  next
    case 3
    then have "(of_int (2 * r) :: rat) = of_int b" by (simp only: of_int_eq_iff)
    then have h: "(of_int r :: rat) / of_int b = 1 / 2" using b0 by (simp add: field_simps)
    have "round_half_even a b = f \<or> round_half_even a b = f + 1"
      using 3 by (simp add: round_half_even_def f_def r_def Let_def)
    then show ?thesis by (auto simp: quot h)
  qed
qed

lemma float_div_error:
  assumes q: "0 < q" and p: "p \<noteq> 0" and k: "- 1022 \<le> ilog2 \<bar>p\<bar> q"
    and x: "float_div p q = Inr x"
  shows "\<bar>x - of_int p / of_int q\<bar> \<le> \<bar>of_int p / of_int q\<bar> / 2 ^ 53"
proof -
  define a where "a = \<bar>p\<bar>"
  define e where "e = ilog2 a q - 52"
  define m where "m = (if 0 \<le> e then round_half_even a (q * 2 ^ nat e)
                       else round_half_even (a * 2 ^ nat (- e)) q)"
  have a0: "0 < a" using p by (simp add: a_def)
  have q0: "(0::rat) < of_int q" using q by simp
  have emax: "max (ilog2 a q - 52) (- 1074) = e"
    using k by (simp add: e_def a_def)
  have fac: "(if 0 \<le> e then 2 ^ nat e else 1 / 2 ^ nat (- e)) = (2::rat) powi e"
    by (simp add: power_int_def inverse_eq_divide power_one_over)
  from x p have "x = of_int (sgn p * m)
                      * (if 0 \<le> e then 2 ^ nat e else 1 / 2 ^ nat (- e))"
    unfolding float_div_def Let_def a_def [symmetric] emax m_def
    by (simp split: if_splits)
  then have xv: "x = of_int (sgn p * m) * 2 powi e"
    by (simp only: fac)
  have merr: "\<bar>of_int m - (of_int a / (of_int q * 2 powi e) :: rat)\<bar> \<le> 1 / 2"
  proof (cases "0 \<le> e")
    case True
    then have "(of_int (q * 2 ^ nat e) :: rat) = of_int q * 2 powi e"
      by (simp add: power_int_def)
    with round_half_even_error [of "q * 2 ^ nat e" a] q True show ?thesis
      by (simp add: m_def)
  next
    case False
    then have "(of_int (a * 2 ^ nat (- e)) :: rat) / of_int q = of_int a / (of_int q * 2 powi e)"
      by (simp add: power_int_def inverse_eq_divide power_one_over field_simps)
    with round_half_even_error [OF q, of "a * 2 ^ nat (- e)"] False show ?thesis
      by (simp add: m_def)
  qed
  have pe: "(0::rat) < 2 powi e" by simp
  have "\<bar>of_int m * 2 powi e - (of_int a / of_int q :: rat)\<bar>
          = \<bar>of_int m - (of_int a / (of_int q * 2 powi e) :: rat)\<bar> * 2 powi e"
  proof -
    have "of_int m * 2 powi e - (of_int a / of_int q :: rat)
            = (of_int m - of_int a / (of_int q * 2 powi e)) * 2 powi e"
      using pe q0 by (simp add: field_simps)
    then show ?thesis
      using pe by (simp add: abs_mult)
  qed
  also have "\<dots> \<le> 1 / 2 * 2 powi e"
    using merr pe by (intro mult_right_mono) simp_all
  also have "\<dots> = 2 powi (ilog2 a q) / 2 ^ 53"
  proof -
    have "(2::rat) powi (ilog2 a q) = 2 powi (e + 52)"
      by (simp add: e_def)
    also have "\<dots> = 2 powi e * 2 powi 52"
      by (rule power_int_add) simp
    finally show ?thesis by simp
  qed
  also have "\<dots> \<le> (of_int a / of_int q) / 2 ^ 53"
  proof -
    from ilog2_bounds(1) [OF a0 q] have "(2::rat) powi (ilog2 a q) \<le> of_int a / of_int q"
      using q0 by (simp add: pos_le_divide_eq mult.commute)
    then show ?thesis by (simp add: divide_right_mono)
  qed
  finally have main: "\<bar>of_int m * 2 powi e - (of_int a / of_int q :: rat)\<bar>
                        \<le> (of_int a / of_int q) / 2 ^ 53" .
  have sg: "x - of_int p / of_int q = of_int (sgn p) * (of_int m * 2 powi e - of_int a / of_int q)"
  proof -
    have "p = sgn p * a"
      by (simp add: a_def mult_sgn_abs)
    then have "(of_int p :: rat) = of_int (sgn p * a)"
      by simp
    then have "(of_int p :: rat) = of_int (sgn p) * of_int a"
      by (simp only: of_int_mult)
    then show ?thesis
      by (simp add: xv algebra_simps)
  qed
  have "\<bar>of_int (sgn p) :: rat\<bar> = 1" using p by (simp add: sgn_if)
  then have "\<bar>x - of_int p / of_int q\<bar> = \<bar>of_int m * 2 powi e - (of_int a / of_int q :: rat)\<bar>"
    by (simp add: sg abs_mult)
  moreover have "\<bar>of_int p / of_int q :: rat\<bar> = of_int a / of_int q"
    using q0 by (simp add: a_def abs_divide)
  ultimately show ?thesis using main by simp
qed

lemma ilog2_lower:
  assumes "0 < p" "0 < q" "q < 2 ^ 46"
  shows "- 1022 \<le> ilog2 p q"
proof (rule ccontr)
  assume "\<not> - 1022 \<le> ilog2 p q"
  then have "(2::rat) powi (ilog2 p q + 1) \<le> 2 powi (- 46)"
    by (intro power_int_increasing) simp_all
  then have "(2::rat) powi (ilog2 p q + 1) \<le> 1 / 2 ^ 46"
    by (simp add: power_int_def inverse_eq_divide power_one_over)
  moreover have "(0::rat) < of_int q" "(of_int q :: rat) < 2 ^ 46"
    using assms(2,3) by (simp_all flip: of_int_less_iff)
  ultimately have "(of_int q :: rat) * 2 powi (ilog2 p q + 1) < 2 ^ 46 * (1 / 2 ^ 46)"
    by (intro mult_less_le_imp_less) simp_all
  with ilog2_bounds(2) [OF assms(1,2)] have "(of_int p :: rat) < 1" by simp
  with assms(1) show False by simp
qed

lemma half_cent:
  fixes x mu :: rat
  assumes n: "0 < n" and bound: "200 * \<bar>s\<bar> < 2 ^ 53"
    and mu: "mu = of_int s / of_int n"
    and xerr: "\<bar>x - mu\<bar> \<le> \<bar>mu\<bar> / 2 ^ 53"
    and kerr: "\<bar>of_int K - 100 * x\<bar> \<le> 1 / 2"
  shows "\<bar>of_int K - 100 * mu\<bar> \<le> 1 / 2"
proof (rule ccontr)
  assume far: "\<not> \<bar>of_int K - 100 * mu\<bar> \<le> 1 / 2"
  have n0: "(0::rat) < of_int n" using n by simp
  have amu: "\<bar>mu\<bar> = \<bar>of_int s\<bar> / of_int n"
    using n0 by (simp add: mu abs_divide)
  define E where "E = \<bar>mu\<bar> / 2 ^ 53"
  from xerr have "\<bar>x - mu\<bar> \<le> E"
    by (simp only: E_def)
  then have e1: "x - mu \<le> E" and e2: "mu - x \<le> E"
    by linarith+
  have "100 * (\<bar>mu\<bar> / 2 ^ 53) < 1 / (2 * of_int n)"
  proof -
    have "(of_int (200 * \<bar>s\<bar>) :: rat) < of_int (2 ^ 53)"
      using bound by (simp only: of_int_less_iff)
    then have "200 * \<bar>of_int s :: rat\<bar> < 2 ^ 53" by simp
    then show ?thesis
      using n0 by (simp add: amu field_simps)
  qed
  then have small: "100 * E < 1 / (2 * of_int n)"
    by (simp only: E_def)
  from far consider "1 / 2 < of_int K - 100 * mu" | "1 / 2 < 100 * mu - of_int K"
    by linarith
  then show False
  proof cases
    case 1
    then have "(of_int (200 * s) :: rat) < of_int ((2 * K - 1) * n)"
      using n0 by (simp add: mu field_simps)
    then have "200 * s < (2 * K - 1) * n" by (simp only: of_int_less_iff)
    then have "200 * s + 1 \<le> (2 * K - 1) * n" by simp
    then have "(of_int (200 * s + 1) :: rat) \<le> of_int ((2 * K - 1) * n)"
      by (simp only: of_int_le_iff)
    then have "100 * mu + 1 / (2 * of_int n) \<le> of_int K - 1 / 2"
      using n0 by (simp add: mu field_simps)
    moreover from kerr have "of_int K - 1 / 2 \<le> 100 * x" by linarith
    ultimately show False using small e1 by linarith
  next
    case 2
    then have "(of_int ((2 * K + 1) * n) :: rat) < of_int (200 * s)"
      using n0 by (simp add: mu field_simps)
    then have "(2 * K + 1) * n < 200 * s" by (simp only: of_int_less_iff)
    then have "(2 * K + 1) * n + 1 \<le> 200 * s" by simp
    then have "(of_int ((2 * K + 1) * n + 1) :: rat) \<le> of_int (200 * s)"
      by (simp only: of_int_le_iff)
    then have "(of_int ((2 * K + 1) * n + 1) :: rat) / (2 * of_int n)
                 \<le> of_int (200 * s) / (2 * of_int n)"
      using n0 by (intro divide_right_mono) simp_all
    moreover have "(of_int ((2 * K + 1) * n + 1) :: rat) / (2 * of_int n)
                     = of_int K + 1 / 2 + 1 / (2 * of_int n)"
      using n0 by (simp add: field_simps)
    moreover have "(of_int (200 * s) :: rat) / (2 * of_int n) = 100 * mu"
      by (simp add: mu)
    ultimately have "of_int K + 1 / 2 + 1 / (2 * of_int n) \<le> 100 * mu"
      by simp
    moreover from kerr have "100 * x \<le> of_int K + 1 / 2" by linarith
    ultimately show False using small e2 by linarith
  qed
qed

lemma round2_near:
  assumes n: "0 < n" and s: "s \<noteq> 0" and bs: "200 * \<bar>s\<bar> < 2 ^ 53" and bn: "200 * n < 2 ^ 53"
    and x: "float_div s n = Inr x" and y: "round2 x = Inr y"
  shows "\<exists>K. \<bar>of_int K / 100 - (of_int s / of_int n :: rat)\<bar> \<le> 1 / 200 \<and> float_div K 100 = Inr y"
proof -
  obtain a d where ad: "quotient_of x = (a, d)" by (cases "quotient_of x")
  then have d: "0 < d" and xq: "x = of_int a / of_int d"
    by (simp_all add: quotient_of_denom_pos quotient_of_div)
  define K where "K = round_half_even (100 * a) d"
  from y ad have fk: "float_div K 100 = Inr y"
    by (simp add: round2_def K_def)
  have "n < 2 ^ 46" using bn by simp
  then have lo: "- 1022 \<le> ilog2 \<bar>s\<bar> n"
    using s n by (intro ilog2_lower) simp_all
  have xerr: "\<bar>x - of_int s / of_int n\<bar> \<le> \<bar>of_int s / of_int n\<bar> / 2 ^ 53"
    by (rule float_div_error [OF n s lo x])
  have "\<bar>of_int K - (of_int (100 * a) / of_int d :: rat)\<bar> \<le> 1 / 2"
    unfolding K_def by (rule round_half_even_error [OF d])
  then have kerr: "\<bar>of_int K - 100 * x\<bar> \<le> 1 / 2"
    by (simp add: xq)
  define D :: rat where "D = of_int K - 100 * (of_int s / of_int n)"
  have D: "\<bar>D\<bar> \<le> 1 / 2"
    unfolding D_def by (rule half_cent [OF n bs refl xerr kerr])
  have "of_int K / 100 - (of_int s / of_int n :: rat) = D / 100"
    unfolding D_def by simp
  then have "\<bar>of_int K / 100 - (of_int s / of_int n :: rat)\<bar> = \<bar>D / 100\<bar>"
    by (rule arg_cong)
  also have "\<dots> = \<bar>D\<bar> / 100"
    by simp
  finally have "\<bar>of_int K / 100 - (of_int s / of_int n :: rat)\<bar> = \<bar>D\<bar> / 100" .
  with D have "\<bar>of_int K / 100 - (of_int s / of_int n :: rat)\<bar> \<le> 1 / 200"
    by linarith
  with fk show ?thesis by blast
qed

lemma avg_near_mean:
  assumes ne: "xs \<noteq> []" and bs: "200 * \<bar>sum_list xs\<bar> < 2 ^ 53"
    and bn: "200 * int (length xs) < 2 ^ 53" and v: "avg xs = Inr v"
  shows "\<exists>K. \<bar>of_int K / 100 - (of_int (sum_list xs) / of_int (int (length xs)) :: rat)\<bar> \<le> 1 / 200
           \<and> float_div K 100 = Inr (num_val v)"
proof -
  define s where "s = sum_list xs"
  define n where "n = int (length xs)"
  have n: "0 < n" using ne by (simp add: n_def)
  from v ne have m: "bind (mean xs) py_round2 = Inr v"
    by (simp add: avg_def)
  show ?thesis
  proof (cases "s mod n = 0")
    case True
    with m have vv: "v = PyInt (s div n)"
      by (simp add: mean_def Let_def bind_def py_round2_def s_def n_def)
    have sn: "s = (s div n) * n" using True by (simp add: mod_eq_0_iff_dvd)
    have "\<bar>s div n\<bar> \<le> \<bar>s\<bar>"
    proof -
      have "\<bar>s\<bar> = \<bar>s div n\<bar> * n" using sn n by (metis abs_mult abs_of_pos)
      moreover have "\<bar>s div n\<bar> * 1 \<le> \<bar>s div n\<bar> * n"
        using n by (intro mult_left_mono) simp_all
      ultimately show ?thesis by simp
    qed
    with bs have small: "\<bar>s div n\<bar> \<le> 2 ^ 53" by (simp add: s_def)
    have "float_div ((s div n) * 100) 100 = Inr (of_int (s div n))"
      by (rule float_div_exact [OF _ small]) simp
    then have f: "float_div (100 * (s div n)) 100 = Inr (num_val v)"
      by (simp add: vv num_val_def mult.commute)
    have "(of_int s :: rat) = of_int (s div n) * of_int n"
      using sn by (metis of_int_mult)
    then have "(of_int (100 * (s div n)) :: rat) / 100 = of_int s / of_int n"
      using n by simp
    then have "\<bar>of_int (100 * (s div n)) / 100 - (of_int s / of_int n :: rat)\<bar> \<le> 1 / 200"
      by simp
    with f show ?thesis unfolding s_def n_def by blast
  next
    case False
    with m obtain x y where x: "float_div s n = Inr x" and y: "round2 x = Inr y"
      and vv: "v = PyFloat y"
      by (auto simp: mean_def Let_def bind_Inr_iff py_round2_def s_def n_def)
    from False have s0: "s \<noteq> 0" by auto
    from round2_near [OF n s0 _ _ x y] bs bn show ?thesis
      by (simp add: s_def n_def vv num_val_def)
  qed
qed

lemma ilog2_lower_count:
  assumes "0 < p" "0 < q" "q < 2 ^ 1022"
  shows "- 1022 \<le> ilog2 p q"
proof (rule ccontr)
  assume "\<not> - 1022 \<le> ilog2 p q"
  then have "(2::rat) powi (ilog2 p q + 1) \<le> 2 powi (- 1022)"
    by (intro power_int_increasing) simp_all
  then have "(2::rat) powi (ilog2 p q + 1) \<le> 1 / 2 ^ 1022"
    by (simp add: power_int_def inverse_eq_divide power_one_over)
  moreover have "(0::rat) < of_int q" "(of_int q :: rat) < 2 ^ 1022"
    using assms(2,3) by (simp_all flip: of_int_less_iff)
  ultimately have "(of_int q :: rat) * 2 powi (ilog2 p q + 1) < 2 ^ 1022 * (1 / 2 ^ 1022)"
    by (intro mult_less_le_imp_less) simp_all
  with ilog2_bounds(2) [OF assms(1,2)] have "(of_int p :: rat) < 1" by simp
  with assms(1) show False by simp
qed

lemma int_within_one:
  fixes K L :: int and a b :: rat
  assumes "\<bar>of_int L - a\<bar> \<le> 1 / 2" "\<bar>a - b\<bar> \<le> d" "\<bar>of_int K - b\<bar> + d < 1 / 2"
  shows "L = K"
proof -
  have "\<bar>(of_int L :: rat) - of_int K\<bar> < 1"
    using assms by linarith
  then have "\<bar>of_int (L - K) :: rat\<bar> < 1" by simp
  then have "\<bar>L - K\<bar> < 1"
    by (metis of_int_abs of_int_less_1_iff)
  then show ?thesis by simp
qed

lemma scale_err:
  fixes x mu :: rat
  assumes "\<bar>x - mu\<bar> \<le> \<bar>mu\<bar> / 2 ^ 53"
  shows "\<bar>100 * x - 100 * mu\<bar> \<le> 100 * \<bar>mu\<bar> / 2 ^ 53"
proof -
  have "100 * x - 100 * mu = 100 * (x - mu)" by (simp add: algebra_simps)
  then have "\<bar>100 * x - 100 * mu\<bar> = 100 * \<bar>x - mu\<bar>"
    by (simp only: abs_mult abs_numeral)
  with assms show ?thesis by simp
qed

lemma quot_err:
  assumes ad: "quotient_of x = (a, d)"
  shows "\<bar>of_int (round_half_even (100 * a) d) - 100 * x\<bar> \<le> 1 / 2"
proof -
  from ad have d: "0 < d" and xq: "x = of_int a / of_int d"
    by (simp_all add: quotient_of_denom_pos quotient_of_div)
  have "\<bar>of_int (round_half_even (100 * a) d) - (of_int (100 * a) / of_int d :: rat)\<bar> \<le> 1 / 2"
    by (rule round_half_even_error [OF d])
  then show ?thesis by (simp add: xq)
qed

lemma avg_away_from_tie:
  assumes ne: "xs \<noteq> []" and bn: "int (length xs) < 2 ^ 1022"
    and tie: "away_from_tie xs" and v: "avg xs = Inr v"
  shows "num_val v = of_int (hundredths round_half_even xs) / 100
       \<or> float_div (hundredths round_half_even xs) 100 = Inr (num_val v)"
proof -
  define s where "s = sum_list xs"
  define n where "n = int (length xs)"
  define K where "K = round_half_even (100 * s) n"
  have n: "0 < n" using ne by (simp add: n_def)
  have K: "hundredths round_half_even xs = K"
    by (simp add: hundredths_def K_def s_def n_def)
  from v ne have m: "bind (mean xs) py_round2 = Inr v"
    by (simp add: avg_def)
  show ?thesis
  proof (cases "s mod n = 0")
    case True
    with m have vv: "v = PyInt (s div n)"
      by (simp add: mean_def Let_def bind_def py_round2_def s_def n_def)
    have sn: "s = (s div n) * n" using True by (simp add: mod_eq_0_iff_dvd)
    have "100 * s = 100 * ((s div n) * n)"
      by (rule arg_cong [where f = "\<lambda>t. 100 * t", OF sn])
    then have e: "100 * s = (100 * (s div n)) * n"
      by (simp only: mult.assoc)
    have "K = round_half_even ((100 * (s div n)) * n) n"
      unfolding K_def by (rule arg_cong [where f = "\<lambda>t. round_half_even t n", OF e])
    also have "\<dots> = 100 * (s div n)"
      by (rule round_half_even_exact [OF n])
    finally have "(of_int K :: rat) = 100 * of_int (s div n)"
      by simp
    then have "num_val v = of_int K / 100"
      by (simp add: vv num_val_def)
    then show ?thesis unfolding K ..
  next
    case False
    with m obtain x y where x: "float_div s n = Inr x" and y: "round2 x = Inr y"
      and vv: "v = PyFloat y"
      by (auto simp: mean_def Let_def bind_Inr_iff py_round2_def s_def n_def)
    from False have s0: "s \<noteq> 0" by auto
    then have sa: "0 < \<bar>s\<bar>" by simp
    have lo: "- 1022 \<le> ilog2 \<bar>s\<bar> n"
      using ilog2_lower_count [OF sa n] bn by (simp add: n_def)
    define mu :: rat where "mu = of_int s / of_int n"
    have xerr: "\<bar>x - mu\<bar> \<le> \<bar>mu\<bar> / 2 ^ 53"
      unfolding mu_def by (rule float_div_error [OF n s0 lo x])
    obtain a d where ad: "quotient_of x = (a, d)" by (cases "quotient_of x")
    define L where "L = round_half_even (100 * a) d"
    have yL: "float_div L 100 = Inr y"
      using y by (simp add: round2_def ad L_def)
    have e1: "\<bar>of_int L - 100 * x\<bar> \<le> 1 / 2"
      unfolding L_def by (rule quot_err [OF ad])
    have e2: "\<bar>100 * x - 100 * mu\<bar> \<le> 100 * \<bar>mu\<bar> / 2 ^ 53"
      by (rule scale_err [OF xerr])
    have e3: "\<bar>of_int K - 100 * mu\<bar> + 100 * \<bar>mu\<bar> / 2 ^ 53 < 1 / 2"
      using tie by (simp add: away_from_tie_def Let_def K mu_def s_def n_def)
    have "L = K" by (rule int_within_one [OF e1 e2 e3])
    with yL show ?thesis by (simp add: K vv num_val_def)
  qed
qed

subsection \<open>Extraction\<close>

text \<open>
  C2.  The claim: one malformed card never makes extraction fail; the card is skipped.
  On the code a card whose price group holds commas only makes \<open>int("")\<close> raise, and
  the exception leaves \<open>extract_cards\<close>: the column below yields its one card, and no
  result at all once a second card with the text \<open>Quoted Price ,\<close> is added.
\<close>

theorem comma_only_price_raises:
  "extract_cards now0 (column_doc ''Parts Ordered'' [''Received: 01/02/23 Quoted Price $1,200''])
     = Inr [\<lparr>column = ''Parts Ordered'', text' = ''Received: 01/02/23 Quoted Price $1,200'',
             date = \<lparr>year = 2023, month = 1, day = 2\<rparr>, age = 10, price = Some 1200\<rparr>]
   \<and> extract_cards now0 (column_doc ''Parts Ordered''
         [''Received: 01/02/23 Quoted Price $1,200'', ''Received: 01/03/23 Quoted Price ,''])
     = Inl ValueError"
  by code_simp

text \<open>
  C3.  The claim: a card whose date token is in ISO year-month-day form yields a parsed
  date.  \<open>parse_date\<close> does accept the ISO form, but \<open>DATE_PAT\<close> passes it tokens
  with slashes only, so the card is dropped.
\<close>

theorem iso_date_card_dropped:
  "parse_date ''2023-01-12'' = Some \<lparr>year = 2023, month = 1, day = 12\<rparr>
   \<and> group1 DATE_PAT ''Received: 2023-01-12'' = None
   \<and> extract_cards now0 (column_doc ''Parts Ordered'' [''Received: 2023-01-12'']) = Inr []"
  by code_simp

subsection \<open>Aggregation\<close>

lemma scope_loop_Inr:
  "scope_loop active ls rows = Inr out \<Longrightarrow>
   \<exists>new. out = rows @ new \<and> map Scope new = ls \<and>
     (\<forall>r\<in>set new. Scope_Count r = length (label_ages active (Scope r)) \<and>
        avg_or_0 (label_ages active (Scope r)) = Inr (Scope_Average_Age r))"
proof (induction ls arbitrary: rows)
  case Nil
  then show ?case by simp
next
  case (Cons lbl ls)
  from Cons.prems obtain a where a: "avg_or_0 (label_ages active lbl) = Inr a"
    and rest: "scope_loop active ls
        (rows @ [\<lparr>Scope = lbl, Scope_Count = length (label_ages active lbl),
                  Scope_Average_Age = a\<rparr>]) = Inr out"
    by (auto simp: Let_def bind_Inr_iff)
  from Cons.IH [OF rest] obtain new where new: "out = (rows @ [\<lparr>Scope = lbl, Scope_Count = length (label_ages active lbl),
                  Scope_Average_Age = a\<rparr>]) @ new" "map Scope new = ls"
     "\<forall>r\<in>set new. Scope_Count r = length (label_ages active (Scope r)) \<and>
        avg_or_0 (label_ages active (Scope r)) = Inr (Scope_Average_Age r)"
    by blast
  show ?case
    by (rule exI [of _ "\<lparr>Scope = lbl, Scope_Count = length (label_ages active lbl),
                  Scope_Average_Age = a\<rparr> # new"]) (use new a in simp)
qed

lemma label_loop_Inr:
  "label_loop active ls rows = Inr out \<Longrightarrow>
   \<exists>new. out = rows @ new \<and> map Label new = ls \<and>
     (\<forall>r\<in>set new. Label_Count r = length (label_ages active (Label r)) \<and>
        avg_or_0 (label_ages active (Label r)) = Inr (Label_Average_Age r))"
proof (induction ls arbitrary: rows)
  case Nil
  then show ?case by simp
next
  case (Cons lbl ls)
  from Cons.prems obtain a where a: "avg_or_0 (label_ages active lbl) = Inr a"
    and rest: "label_loop active ls
        (rows @ [\<lparr>Label = lbl, Label_Count = length (label_ages active lbl),
                  Label_Average_Age = a\<rparr>]) = Inr out"
    by (auto simp: Let_def bind_Inr_iff)
  from Cons.IH [OF rest] obtain new where new: "out = (rows @ [\<lparr>Label = lbl, Label_Count = length (label_ages active lbl),
                  Label_Average_Age = a\<rparr>]) @ new" "map Label new = ls"
     "\<forall>r\<in>set new. Label_Count r = length (label_ages active (Label r)) \<and>
        avg_or_0 (label_ages active (Label r)) = Inr (Label_Average_Age r)"
    by blast
  show ?case
    by (rule exI [of _ "\<lparr>Label = lbl, Label_Count = length (label_ages active lbl),
                  Label_Average_Age = a\<rparr> # new"]) (use new a in simp)
qed

lemma lane_loop_Inr:
  "lane_loop cards ls rows = Inr out \<Longrightarrow>
   \<exists>new. out = rows @ new \<and> map Lane new = filter (\<lambda>l. \<exists>c\<in>set cards. column c = l) ls \<and>
     (\<forall>r\<in>set new. Lane_Count r = length (filter (\<lambda>c. column c = Lane r) cards) \<and>
        avg (map age (filter (\<lambda>c. column c = Lane r) cards)) = Inr (Lane_Average_Age r))"
proof (induction ls arbitrary: rows)
  case Nil
  then show ?case by simp
next
  case (Cons lane ls)
  let ?cs = "filter (\<lambda>c. column c = lane) cards"
  show ?case
  proof (cases "?cs = []")
    case True
    then have none: "\<not> (\<exists>c\<in>set cards. column c = lane)"
      by (auto simp: filter_empty_conv)
    from Cons.prems True have "lane_loop cards ls rows = Inr out"
      by (simp add: Let_def)
    from Cons.IH [OF this] none show ?thesis by simp
  next
    case False
    then have some: "\<exists>c\<in>set cards. column c = lane"
      by (auto simp: filter_empty_conv)
    from Cons.prems False obtain a where a: "avg (map age ?cs) = Inr a"
      and rest: "lane_loop cards ls
         (rows @ [\<lparr>Lane = lane, Lane_Count = length ?cs, Lane_Average_Age = a\<rparr>]) = Inr out"
      by (auto simp: Let_def bind_Inr_iff)
    from Cons.IH [OF rest] obtain new where new:
      "out = (rows @ [\<lparr>Lane = lane, Lane_Count = length ?cs, Lane_Average_Age = a\<rparr>]) @ new"
      "map Lane new = filter (\<lambda>l. \<exists>c\<in>set cards. column c = l) ls"
      "\<forall>r\<in>set new. Lane_Count r = length (filter (\<lambda>c. column c = Lane r) cards) \<and>
        avg (map age (filter (\<lambda>c. column c = Lane r) cards)) = Inr (Lane_Average_Age r)"
      by blast
    show ?thesis
      by (rule exI [of _ "\<lparr>Lane = lane, Lane_Count = length ?cs, Lane_Average_Age = a\<rparr> # new"])
         (use new a some in simp)
  qed
qed

lemma build_report_Inr:
  assumes "build_report cards = Inr rep"
  obtains a0 srows lrows av aw al arows where
    "avg (map age (filter (\<lambda>c. column c \<notin> EXCLUDED_COLUMNS_FOR_AGE) cards)) = Inr a0"
    "scope_loop (filter (\<lambda>c. column c \<notin> EXCLUDED_COLUMNS_FOR_AGE) cards) FOCUSED_LABELS
       [\<lparr>Scope = ''All cards (excluding Completed/Canceled)'',
         Scope_Count = length (filter (\<lambda>c. column c \<notin> EXCLUDED_COLUMNS_FOR_AGE) cards),
         Scope_Average_Age = a0\<rparr>] = Inr srows"
    "lane_loop cards REQUESTED_LANES [] = Inr lrows"
    "avg_or_0 (prices_of (filter (\<lambda>c. column c \<notin> EXCLUDED_COLUMNS_FOR_AGE) cards)) = Inr av"
    "avg_or_0 (prices_of (filter (\<lambda>c. column c = ''Completed'') cards)) = Inr aw"
    "avg_or_0 (prices_of (filter (\<lambda>c. column c = ''Canceled'') cards)) = Inr al"
    "(if ALL_LABELS \<noteq> [] then label_loop (filter (\<lambda>c. column c \<notin> EXCLUDED_COLUMNS_FOR_AGE) cards) ALL_LABELS [] else Inr []) = Inr arows"
    "scope rep = srows" "lanes rep = lrows" "all_labels rep = arows"
    "quoted rep =
       \<lparr>Total_Value_Count = length (prices_of (filter (\<lambda>c. column c \<notin> EXCLUDED_COLUMNS_FOR_AGE) cards)),
        Total_Value = sum_or_0 (prices_of (filter (\<lambda>c. column c \<notin> EXCLUDED_COLUMNS_FOR_AGE) cards)),
        Average_Value = av,
        Total_Won_Count = length (prices_of (filter (\<lambda>c. column c = ''Completed'') cards)),
        Total_Won = sum_or_0 (prices_of (filter (\<lambda>c. column c = ''Completed'') cards)),
        Average_Won = aw,
        Total_Lost_Count = length (prices_of (filter (\<lambda>c. column c = ''Canceled'') cards)),
        Total_Lost = sum_or_0 (prices_of (filter (\<lambda>c. column c = ''Canceled'') cards)),
        Average_Lost = al\<rparr>"
  using assms unfolding build_report_def Let_def bind_Inr_iff
  by (elim exE conjE) (auto intro: that)

lemma build_report_cards0_ok: "\<not> isl (build_report cards0)"
  by code_simp

lemma sum_or_0_eq: "sum_or_0 xs = sum_list xs"
  by (simp add: sum_or_0_def)

lemma length_prices_of: "length (prices_of (filter P cs)) = length (filter (\<lambda>c. P c \<and> price c \<noteq> None) cs)"
  by (simp add: prices_of_def conj_commute)

lemma prices_of_filter:
  "prices_of (filter P cs) = map (\<lambda>c. the (price c)) (filter (\<lambda>c. P c \<and> price c \<noteq> None) cs)"
  by (simp add: prices_of_def conj_commute)

text \<open>
  C5.  The Lane table has a row for a configured lane exactly when some card's column
  equals the lane, so a lane without a card has no row; the Label table has one row for
  each configured label, in order, and the Scope table one row for each focused label
  after row 0; a label that no card matches keeps its row, with count 0 and average 0.
\<close>

theorem lane_and_label_rows:
  assumes "build_report cards = Inr rep"
  shows "map Lane (lanes rep) = filter (\<lambda>l. \<exists>c\<in>set cards. column c = l) REQUESTED_LANES
    \<and> (\<forall>lane. (\<forall>c\<in>set cards. column c \<noteq> lane) \<longrightarrow> lane \<notin> set (map Lane (lanes rep)))
    \<and> (\<forall>r\<in>set (lanes rep). 0 < Lane_Count r)
    \<and> map Label (all_labels rep) = ALL_LABELS
    \<and> length (all_labels rep) = length ALL_LABELS
    \<and> (\<forall>r\<in>set (all_labels rep).
          Label_Count r = length (label_ages (filter (\<lambda>c. column c \<notin> EXCLUDED_COLUMNS_FOR_AGE) cards) (Label r))
          \<and> (Label_Count r = 0 \<longrightarrow> Label_Average_Age r = PyInt 0))
    \<and> map Scope (scope rep) = ''All cards (excluding Completed/Canceled)'' # FOCUSED_LABELS
    \<and> (\<forall>r\<in>set (tl (scope rep)).
          Scope_Count r = length (label_ages (filter (\<lambda>c. column c \<notin> EXCLUDED_COLUMNS_FOR_AGE) cards) (Scope r))
          \<and> (Scope_Count r = 0 \<longrightarrow> Scope_Average_Age r = PyInt 0))"
proof -
  let ?active = "filter (\<lambda>c. column c \<notin> EXCLUDED_COLUMNS_FOR_AGE) cards"
  from assms obtain a0 srows lrows arows where
    sl: "scope_loop ?active FOCUSED_LABELS
       [\<lparr>Scope = ''All cards (excluding Completed/Canceled)'',
         Scope_Count = length ?active, Scope_Average_Age = a0\<rparr>] = Inr srows"
    and ll: "lane_loop cards REQUESTED_LANES [] = Inr lrows"
    and al: "(if ALL_LABELS \<noteq> [] then label_loop ?active ALL_LABELS [] else Inr []) = Inr arows"
    and rep: "scope rep = srows" "lanes rep = lrows" "all_labels rep = arows"
    by (rule build_report_Inr)
  from lane_loop_Inr [OF ll] rep
  have lanes: "map Lane (lanes rep) = filter (\<lambda>l. \<exists>c\<in>set cards. column c = l) REQUESTED_LANES"
    and lane_count: "\<forall>r\<in>set (lanes rep). Lane_Count r = length (filter (\<lambda>c. column c = Lane r) cards)"
    by auto
  have lane_in: "\<forall>r\<in>set (lanes rep). Lane r \<in> set (filter (\<lambda>l. \<exists>c\<in>set cards. column c = l) REQUESTED_LANES)"
  proof
    fix r assume "r \<in> set (lanes rep)"
    then have "Lane r \<in> set (map Lane (lanes rep))" by simp
    then show "Lane r \<in> set (filter (\<lambda>l. \<exists>c\<in>set cards. column c = l) REQUESTED_LANES)"
      by (simp only: lanes)
  qed
  have lane_pos: "\<forall>r\<in>set (lanes rep). 0 < Lane_Count r"
  proof
    fix r assume r: "r \<in> set (lanes rep)"
    with lane_in obtain c where "c \<in> set cards" "column c = Lane r" by auto
    then have "filter (\<lambda>c. column c = Lane r) cards \<noteq> []"
      by (auto simp: filter_empty_conv)
    with lane_count r show "0 < Lane_Count r" by simp
  qed
  have lane_omit: "\<forall>lane. (\<forall>c\<in>set cards. column c \<noteq> lane) \<longrightarrow> lane \<notin> set (map Lane (lanes rep))"
    unfolding lanes by auto
  have "ALL_LABELS \<noteq> []" by (simp add: ALL_LABELS_def)
  with al have "label_loop ?active ALL_LABELS [] = Inr arows" by simp
  from label_loop_Inr [OF this] rep
  have labels: "map Label (all_labels rep) = ALL_LABELS"
    and label_rows: "\<forall>r\<in>set (all_labels rep).
          Label_Count r = length (label_ages ?active (Label r))
          \<and> avg_or_0 (label_ages ?active (Label r)) = Inr (Label_Average_Age r)"
    by auto
  from labels have label_len: "length (all_labels rep) = length ALL_LABELS"
    by (metis length_map)
  have label_zero: "\<forall>r\<in>set (all_labels rep).
          Label_Count r = length (label_ages ?active (Label r))
          \<and> (Label_Count r = 0 \<longrightarrow> Label_Average_Age r = PyInt 0)"
    using label_rows by (auto simp: avg_or_0_def)
  from scope_loop_Inr [OF sl] rep obtain new where
    new: "scope rep = \<lparr>Scope = ''All cards (excluding Completed/Canceled)'',
         Scope_Count = length ?active, Scope_Average_Age = a0\<rparr> # new"
      "map Scope new = FOCUSED_LABELS"
      "\<forall>r\<in>set new. Scope_Count r = length (label_ages ?active (Scope r)) \<and>
        avg_or_0 (label_ages ?active (Scope r)) = Inr (Scope_Average_Age r)"
    by auto
  have scopes: "map Scope (scope rep) = ''All cards (excluding Completed/Canceled)'' # FOCUSED_LABELS"
    using new by simp
  have scope_zero: "\<forall>r\<in>set (tl (scope rep)).
          Scope_Count r = length (label_ages ?active (Scope r))
          \<and> (Scope_Count r = 0 \<longrightarrow> Scope_Average_Age r = PyInt 0)"
    using new by (auto simp: avg_or_0_def)
  from lanes lane_omit lane_pos labels label_len label_zero scopes scope_zero
  show ?thesis by blast
qed

theorem lane_and_label_rows_witness:
  "\<not> isl (build_report cards0)
   \<and> map Lane (lanes (projr (build_report cards0))) = [''Parts Ordered'', ''Scheduled'']
   \<and> length (all_labels (projr (build_report cards0))) = 34
   \<and> length (scope (projr (build_report cards0))) = 7"
proof -
  have ok: "build_report cards0 = Inr (projr (build_report cards0))"
    using build_report_cards0_ok by simp
  have l: "filter (\<lambda>l. \<exists>c\<in>set cards0. column c = l) REQUESTED_LANES = [''Parts Ordered'', ''Scheduled'']"
    by code_simp
  have n: "length ALL_LABELS = 34" "length FOCUSED_LABELS = 6"
    by (simp_all add: ALL_LABELS_def FOCUSED_LABELS_def)
  from lane_and_label_rows [OF ok]
  have "map Lane (lanes (projr (build_report cards0))) = [''Parts Ordered'', ''Scheduled'']"
    and "length (all_labels (projr (build_report cards0))) = 34"
    and "length (map Scope (scope (projr (build_report cards0)))) = 7"
    by (simp_all add: l n)
  then show ?thesis
    using build_report_cards0_ok by simp
qed

text \<open>
  C7.  The counts and sums of the price summary are those of three populations of the
  cards: the priced cards outside the excluded columns, the priced cards in
  \<open>Completed\<close>, and the priced cards in \<open>Canceled\<close>; no card is in two of them.
\<close>

theorem price_populations_disjoint:
  assumes "build_report cards = Inr rep"
  shows "Total_Value_Count (quoted rep)
           = length (filter (\<lambda>c. column c \<notin> EXCLUDED_COLUMNS_FOR_AGE \<and> price c \<noteq> None) cards)
    \<and> Total_Value (quoted rep)
           = sum_list (map (\<lambda>c. the (price c))
               (filter (\<lambda>c. column c \<notin> EXCLUDED_COLUMNS_FOR_AGE \<and> price c \<noteq> None) cards))
    \<and> Total_Won_Count (quoted rep)
           = length (filter (\<lambda>c. column c = ''Completed'' \<and> price c \<noteq> None) cards)
    \<and> Total_Won (quoted rep)
           = sum_list (map (\<lambda>c. the (price c))
               (filter (\<lambda>c. column c = ''Completed'' \<and> price c \<noteq> None) cards))
    \<and> Total_Lost_Count (quoted rep)
           = length (filter (\<lambda>c. column c = ''Canceled'' \<and> price c \<noteq> None) cards)
    \<and> Total_Lost (quoted rep)
           = sum_list (map (\<lambda>c. the (price c))
               (filter (\<lambda>c. column c = ''Canceled'' \<and> price c \<noteq> None) cards))
    \<and> set (filter (\<lambda>c. column c \<notin> EXCLUDED_COLUMNS_FOR_AGE \<and> price c \<noteq> None) cards)
        \<inter> set (filter (\<lambda>c. column c = ''Completed'' \<and> price c \<noteq> None) cards) = {}
    \<and> set (filter (\<lambda>c. column c \<notin> EXCLUDED_COLUMNS_FOR_AGE \<and> price c \<noteq> None) cards)
        \<inter> set (filter (\<lambda>c. column c = ''Canceled'' \<and> price c \<noteq> None) cards) = {}
    \<and> set (filter (\<lambda>c. column c = ''Completed'' \<and> price c \<noteq> None) cards)
        \<inter> set (filter (\<lambda>c. column c = ''Canceled'' \<and> price c \<noteq> None) cards) = {}"
proof -
  from assms obtain av aw al where
    q: "quoted rep =
       \<lparr>Total_Value_Count = length (prices_of (filter (\<lambda>c. column c \<notin> EXCLUDED_COLUMNS_FOR_AGE) cards)),
        Total_Value = sum_or_0 (prices_of (filter (\<lambda>c. column c \<notin> EXCLUDED_COLUMNS_FOR_AGE) cards)),
        Average_Value = av,
        Total_Won_Count = length (prices_of (filter (\<lambda>c. column c = ''Completed'') cards)),
        Total_Won = sum_or_0 (prices_of (filter (\<lambda>c. column c = ''Completed'') cards)),
        Average_Won = aw,
        Total_Lost_Count = length (prices_of (filter (\<lambda>c. column c = ''Canceled'') cards)),
        Total_Lost = sum_or_0 (prices_of (filter (\<lambda>c. column c = ''Canceled'') cards)),
        Average_Lost = al\<rparr>"
    by (rule build_report_Inr)
  have in_excl: "''Completed'' \<in> EXCLUDED_COLUMNS_FOR_AGE" "''Canceled'' \<in> EXCLUDED_COLUMNS_FOR_AGE"
    by (simp_all add: EXCLUDED_COLUMNS_FOR_AGE_def)
  have d1: "set (filter (\<lambda>c. column c \<notin> EXCLUDED_COLUMNS_FOR_AGE \<and> price c \<noteq> None) cards)
        \<inter> set (filter (\<lambda>c. column c = ''Completed'' \<and> price c \<noteq> None) cards) = {}"
    using in_excl by auto
  have d2: "set (filter (\<lambda>c. column c \<notin> EXCLUDED_COLUMNS_FOR_AGE \<and> price c \<noteq> None) cards)
        \<inter> set (filter (\<lambda>c. column c = ''Canceled'' \<and> price c \<noteq> None) cards) = {}"
    using in_excl by auto
  have d3: "set (filter (\<lambda>c. column c = ''Completed'' \<and> price c \<noteq> None) cards)
        \<inter> set (filter (\<lambda>c. column c = ''Canceled'' \<and> price c \<noteq> None) cards) = {}"
    by auto
  show ?thesis
    using d1 d2 d3 by (simp add: q sum_or_0_eq length_prices_of prices_of_filter)
qed

theorem price_populations_disjoint_witness:
  "\<not> isl (build_report cards0)
   \<and> Total_Value_Count (quoted (projr (build_report cards0))) = 2
   \<and> Total_Value (quoted (projr (build_report cards0))) = 1501
   \<and> Total_Won_Count (quoted (projr (build_report cards0))) = 1
   \<and> Total_Won (quoted (projr (build_report cards0))) = 300
   \<and> Total_Lost_Count (quoted (projr (build_report cards0))) = 0"
proof -
  have ok: "build_report cards0 = Inr (projr (build_report cards0))"
    using build_report_cards0_ok by simp
  have a: "filter (\<lambda>c. column c \<notin> EXCLUDED_COLUMNS_FOR_AGE \<and> price c \<noteq> None) cards0
             = [cards0 ! 0, cards0 ! 2]"
    by code_simp
  have w: "filter (\<lambda>c. column c = ''Completed'' \<and> price c \<noteq> None) cards0 = [cards0 ! 1]"
    by code_simp
  have l: "filter (\<lambda>c. column c = ''Canceled'' \<and> price c \<noteq> None) cards0 = []"
    by code_simp
  have p: "the (price (cards0 ! 0)) = 1200" "the (price (cards0 ! Suc 0)) = 300"
    "the (price (cards0 ! 2)) = 301"
    by (simp_all add: cards0_def)
  note t = price_populations_disjoint [OF ok, unfolded a w l]
  from t show ?thesis
    using build_report_cards0_ok by (simp add: p)
qed











subsection \<open>What the patterns match\<close>

lemma rx_match_Chr_Seq:
  assumes "(g, rest) \<in> set (rx_match (Seq (Chr p) r) u)"
  shows "\<exists>c u'. u = c # u' \<and> p c \<and> (g, rest) \<in> set (rx_match r u')"
  using assms by (cases u) (auto split: if_splits)

lemma rx_match_lit_ci:
  "(g, rest) \<in> set (rx_match (lit_ci w r) u) \<Longrightarrow>
   \<exists>m u'. u = m @ u' \<and> lower m = lower w \<and> (g, rest) \<in> set (rx_match r u')"
proof (induction w arbitrary: u)
  case Nil
  then show ?case by (auto simp: lit_ci_def lower_def)
next
  case (Cons c w)
  from Cons.prems have "(g, rest) \<in> set (rx_match (Seq (Chr (\<lambda>x. lower_char x = lower_char c)) (lit_ci w r)) u)"
    by (simp add: lit_ci_def)
  from rx_match_Chr_Seq [OF this] obtain x u1 where
    u: "u = x # u1" "lower_char x = lower_char c" and m: "(g, rest) \<in> set (rx_match (lit_ci w r) u1)"
    by blast
  from Cons.IH [OF m] obtain m' u' where "u1 = m' @ u'" "lower m' = lower w"
    "(g, rest) \<in> set (rx_match r u')" by blast
  with u have "u = (x # m') @ u'" "lower (x # m') = lower (c # w)" "(g, rest) \<in> set (rx_match r u')"
    by (simp_all add: lower_def)
  then show ?case by blast
qed

lemma takeWhile_take_all: "j \<le> length (takeWhile p s) \<Longrightarrow> \<forall>c\<in>set (take j s). p c"
proof -
  assume j: "j \<le> length (takeWhile p s)"
  have "take j s = take j (takeWhile p s)"
    by (metis j append_eq_conv_conj takeWhile_dropWhile_id take_all_iff take_append
        diff_is_0_eq' append_Nil2 take_0 min.absorb2 take_take)
  then show ?thesis
    by (metis in_set_takeD set_takeWhileD)
qed

lemma rx_match_Rep:
  assumes "(g, rest) \<in> set (rx_match (Rep lo hi p) u)"
  shows "\<exists>j. lo \<le> j \<and> j \<le> length (takeWhile p u) \<and> g = [] \<and> rest = drop j u"
proof -
  define top where "top = (case hi of None \<Rightarrow> length (takeWhile p u)
                           | Some h \<Rightarrow> min (length (takeWhile p u)) h)"
  have top: "top \<le> length (takeWhile p u)"
    by (cases hi) (simp_all add: top_def)
  from assms have "(g, rest) \<in> (\<lambda>j. ([], drop j u)) ` {lo ..< Suc top}"
    by (simp add: Let_def top_def del: upt_Suc)
  then obtain j where "lo \<le> j" "j \<le> top" "g = []" "rest = drop j u"
    by auto
  with top have "lo \<le> j \<and> j \<le> length (takeWhile p u) \<and> g = [] \<and> rest = drop j u"
    by simp
  then show ?thesis ..
qed

lemma rx_match_Rep_Seq:
  assumes "(g, rest) \<in> set (rx_match (Seq (Rep lo hi p) r) u)"
  shows "\<exists>a u'. u = a @ u' \<and> (\<forall>c\<in>set a. p c) \<and> lo \<le> length a \<and> (g, rest) \<in> set (rx_match r u')"
proof -
  from assms obtain g1 r1 g2 where
    a: "(g1, r1) \<in> set (rx_match (Rep lo hi p) u)" and b: "(g2, rest) \<in> set (rx_match r r1)"
    and c: "g = g1 @ g2"
    by (auto simp del: rx_match.simps(5))
  from rx_match_Rep [OF a] obtain j where j: "lo \<le> j" "j \<le> length (takeWhile p u)"
    and "g1 = []" "r1 = drop j u"
    by blast
  with b c have m: "(g, rest) \<in> set (rx_match r (drop j u))"
    by simp
  have "j \<le> length u"
    using j(2) length_takeWhile_le [of p u] by linarith
  then have "u = take j u @ drop j u" "length (take j u) = j" by simp_all
  with j m takeWhile_take_all [OF j(2)] show ?thesis by metis
qed

lemma rx_match_Grp_Rep:
  assumes "(g, rest) \<in> set (rx_match (Grp (Rep lo hi p)) u)"
  shows "\<exists>a. u = a @ rest \<and> (\<forall>c\<in>set a. p c) \<and> lo \<le> length a \<and> g = [a]"
proof -
  from assms obtain g1 where
    a: "(g1, rest) \<in> set (rx_match (Rep lo hi p) u)" and g1: "g = g1 @ [take (length u - length rest) u]"
    by (auto simp del: rx_match.simps(5))
  from rx_match_Rep [OF a] g1 obtain j where j: "lo \<le> j" "j \<le> length (takeWhile p u)"
    and r: "rest = drop j u" and g: "g = [take (length u - length rest) u]"
    by auto
  have le: "j \<le> length u"
    using j(2) length_takeWhile_le [of p u] by linarith
  then have "length u - length rest = j" by (simp add: r)
  with g have "g = [take j u]" by simp
  moreover have "u = take j u @ rest" by (simp add: r)
  moreover have "length (take j u) = j" using le by simp
  ultimately show ?thesis
    using j takeWhile_take_all [OF j(2)] by metis
qed

lemma rx_search_Some:
  "rx_search r s = Some g \<Longrightarrow> \<exists>pre u rest. s = pre @ u \<and> (g, rest) \<in> set (rx_match r u)"
proof (induction s)
  case Nil
  then show ?case by (auto split: list.splits)
next
  case (Cons c s)
  show ?case
  proof (cases "rx_match r (c # s)")
    case Nil
    with Cons.prems have "rx_search r s = Some g" by simp
    from Cons.IH [OF this] obtain pre u rest where "s = pre @ u" "(g, rest) \<in> set (rx_match r u)"
      by blast
    then have "c # s = (c # pre) @ u" "(g, rest) \<in> set (rx_match r u)" by simp_all
    then show ?thesis by blast
  next
    case (Cons x xs)
    with Cons.prems have "(g, snd x) \<in> set (rx_match r (c # s))"
      by (cases x) auto
    then have "c # s = [] @ (c # s)" "(g, snd x) \<in> set (rx_match r (c # s))" by simp_all
    then show ?thesis by blast
  qed
qed

lemma rx_match_SeqD:
  "(g, rest) \<in> set (rx_match (Seq a b) u) \<Longrightarrow>
   \<exists>g1 r1 g2. (g1, r1) \<in> set (rx_match a u) \<and> (g2, rest) \<in> set (rx_match b r1) \<and> g = g1 @ g2"
  by auto

lemma rx_match_GrpD:
  "(g, rest) \<in> set (rx_match (Grp a) u) \<Longrightarrow>
   \<exists>g0. (g0, rest) \<in> set (rx_match a u) \<and> g = g0 @ [take (length u - length rest) u]"
  by auto

lemma group_free_match:
  "group_free r \<Longrightarrow> (g, rest) \<in> set (rx_match r u) \<Longrightarrow> g = []"
proof (induction r arbitrary: g rest u)
  case (Chr p)
  then show ?case by (cases u) (auto split: if_splits)
next
  case (Seq a b)
  from rx_match_SeqD [OF Seq.prems(2)] Seq.prems(1) Seq.IH show ?case
    by fastforce
next
  case (Rep lo hi p)
  from rx_match_Rep [OF Rep.prems(2)] show ?case by blast
qed auto

lemma rx_match_suffix:
  "(g, rest) \<in> set (rx_match r u) \<Longrightarrow> \<exists>w. u = w @ rest"
proof (induction r arbitrary: g rest u)
  case Eps
  then show ?case by simp
next
  case (Chr p)
  then show ?case by (cases u) (auto split: if_splits)
next
  case (Seq a b)
  from rx_match_SeqD [OF Seq.prems] obtain g1 r1 g2 where
    a: "(g1, r1) \<in> set (rx_match a u)" and b: "(g2, rest) \<in> set (rx_match b r1)"
    by blast
  from Seq.IH(1) [OF a] Seq.IH(2) [OF b] show ?case by auto
next
  case (Alt a b)
  then show ?case by auto
next
  case (Rep lo hi p)
  from rx_match_Rep [OF Rep.prems] obtain j where "rest = drop j u" by blast
  then have "u = take j u @ rest" by simp
  then show ?case ..
next
  case (Grp a)
  then show ?case by auto
qed

lemma rx_match_Rep_bounds:
  assumes "(g, rest) \<in> set (rx_match (Rep lo (Some hi) p) u)"
  shows "\<exists>a. u = a @ rest \<and> (\<forall>c\<in>set a. p c) \<and> lo \<le> length a \<and> length a \<le> hi \<and> g = []"
proof -
  from assms have "(g, rest) \<in> (\<lambda>j. ([], drop j u)) ` {lo ..< Suc (min (length (takeWhile p u)) hi)}"
    by (simp add: Let_def del: upt_Suc)
  then obtain j where j: "lo \<le> j" "j \<le> length (takeWhile p u)" "j \<le> hi"
    and g: "g = []" and r: "rest = drop j u"
    by auto
  have "j \<le> length u"
    using j(2) length_takeWhile_le [of p u] by linarith
  then have "u = take j u @ rest" "length (take j u) = j" by (simp_all add: r)
  with j g takeWhile_take_all [OF j(2)] show ?thesis by metis
qed

lemma date_token_shape:
  assumes "group1 DATE_PAT t = Some tok"
  shows "\<exists>a w. tok = a @ CHR ''/'' # w \<and> (\<forall>c\<in>set a. is_digit c) \<and> 1 \<le> length a \<and> length a \<le> 2"
proof -
  let ?tail = "Seq (lit CHR ''/'') (Seq (Rep 1 (Some 2) is_digit) (Seq (lit CHR ''/'')
              (Rep 2 (Some 4) is_digit)))"
  from assms obtain g where s: "rx_search DATE_PAT t = Some g" and tok: "tok = hd g"
    by (auto simp: group1_def split: option.splits)
  from rx_search_Some [OF s] obtain pre u rest where
    m: "(g, rest) \<in> set (rx_match DATE_PAT u)" by blast
  from rx_match_lit_ci [OF m [unfolded DATE_PAT_def]] obtain u1 where
    m1: "(g, rest) \<in> set (rx_match (Seq (Rep 1 None (\<lambda>c. c = CHR '':'' \<or> is_space c))
         (Grp (Seq (Rep 1 (Some 2) is_digit) ?tail))) u1)"
    by blast
  from rx_match_Rep_Seq [OF m1] obtain u2 where
    m2: "(g, rest) \<in> set (rx_match (Grp (Seq (Rep 1 (Some 2) is_digit) ?tail)) u2)"
    by blast
  from rx_match_GrpD [OF m2] obtain g0 where
    m3: "(g0, rest) \<in> set (rx_match (Seq (Rep 1 (Some 2) is_digit) ?tail) u2)"
    and g: "g = g0 @ [take (length u2 - length rest) u2]"
    by blast
  from rx_match_SeqD [OF m3] obtain g1 r1 g2 where
    a: "(g1, r1) \<in> set (rx_match (Rep 1 (Some 2) is_digit) u2)"
    and b: "(g2, rest) \<in> set (rx_match ?tail r1)" and g0: "g0 = g1 @ g2"
    by blast
  from rx_match_Rep_bounds [OF a] obtain d1 where
    d1: "u2 = d1 @ r1" "\<forall>c\<in>set d1. is_digit c" "1 \<le> length d1" "length d1 \<le> 2" "g1 = []"
    by blast
  from b have "(g2, rest) \<in> set (rx_match (Seq (Chr (\<lambda>x. x = CHR ''/'')) (Seq (Rep 1 (Some 2) is_digit) (Seq (lit CHR ''/'')
              (Rep 2 (Some 4) is_digit)))) r1)"
    by (simp only: lit_def)
  from rx_match_Chr_Seq [OF this] obtain r2 where
    r1: "r1 = CHR ''/'' # r2"
    and c: "(g2, rest) \<in> set (rx_match (Seq (Rep 1 (Some 2) is_digit) (Seq (lit CHR ''/'')
              (Rep 2 (Some 4) is_digit))) r2)"
    by blast
  from rx_match_suffix [OF c] obtain w where w: "r2 = w @ rest" by blast
  have g2: "g2 = []"
    by (rule group_free_match [OF _ c]) (simp add: lit_def)
  have "u2 = (d1 @ CHR ''/'' # w) @ rest" using d1(1) r1 w by simp
  then have "take (length u2 - length rest) u2 = d1 @ CHR ''/'' # w" by simp
  with g g0 d1(5) g2 tok have "tok = d1 @ CHR ''/'' # w" by simp
  with d1 show ?thesis by blast
qed

text \<open>
  The third format of \<open>parse_date\<close> is never the one that succeeds in \<open>extract_cards\<close>:
  a token that \<open>DATE_PAT\<close> captures starts with one or two digits and a slash, and the
  ISO format needs four digits first.
\<close>

lemma iso_format_never_matches:
  assumes "group1 DATE_PAT t = Some tok"
  shows "strptime tok Ymd = Inl ValueError"
proof -
  from date_token_shape [OF assms] obtain a w where
    tok: "tok = a @ CHR ''/'' # w" and a: "\<forall>c\<in>set a. is_digit c" "1 \<le> length a" "length a \<le> 2"
    by blast
  have slash: "\<not> is_digit CHR ''/''" by (simp add: is_digit_def ord_def)
  from a(2,3) consider c1 where "a = [c1]" | c1 c2 where "a = [c1, c2]"
    by (cases a; cases "tl a"; cases "tl (tl a)") auto
  then have "rx_match re_Y tok = []"
    by cases (simp_all add: tok re_Y_def slash)
  then have "rx_match (format_regex Ymd) tok = []"
    by (simp add: format_regex_def)
  then show ?thesis by (simp add: strptime_def)
qed

lemma parse_date_token:
  assumes "group1 DATE_PAT t = Some tok" "parse_date tok = Some d"
  shows "strptime tok MDy = Inr d \<or> strptime tok MDY = Inr d"
  using assms(2) iso_format_never_matches [OF assms(1)]
  by (auto simp: parse_date_def split: sum.splits)

lemma rx_search_first:
  "rx_search r s = Some g \<Longrightarrow>
   \<exists>pre u rest ms. s = pre @ u \<and> rx_match r u = (g, rest) # ms
     \<and> (\<forall>i<length pre. rx_match r (drop i s) = [])"
proof (induction s)
  case Nil
  then obtain rest ms where m: "rx_match r [] = (g, rest) # ms"
    by (auto split: list.splits)
  show ?case
    by (rule exI [of _ "[]"], rule exI [of _ "[]"], rule exI [of _ rest], rule exI [of _ ms])
       (simp add: m)
next
  case (Cons c s)
  show ?case
  proof (cases "rx_match r (c # s)")
    case Nil
    with Cons.prems have "rx_search r s = Some g" by simp
    from Cons.IH [OF this] obtain pre u rest ms where
      s: "s = pre @ u" and m: "rx_match r u = (g, rest) # ms"
      and f: "\<forall>i<length pre. rx_match r (drop i s) = []"
      by (elim exE conjE)
    have e: "rx_match r (drop i (c # s)) = []" if "i < length (c # pre)" for i
    proof (cases i)
      case 0
      then show ?thesis using Nil by simp
    next
      case (Suc j)
      with that have j: "j < length pre" by simp
      have "rx_match r (drop j s) = []" by (rule f [rule_format, OF j])
      with Suc show ?thesis by simp
    qed
    show ?thesis
      by (rule exI [of _ "c # pre"], rule exI [of _ u], rule exI [of _ rest], rule exI [of _ ms])
         (use s m e in simp)
  next
    case (Cons x xs)
    with Cons.prems have m: "rx_match r (c # s) = (g, snd x) # xs"
      by (cases x) simp
    show ?thesis
      by (rule exI [of _ "[]"], rule exI [of _ "c # s"], rule exI [of _ "snd x"], rule exI [of _ xs])
         (simp add: m)
  qed
qed

lemma concat_head: "concat xss = x # xs \<Longrightarrow> \<exists>ys\<in>set xss. \<exists>zs. ys = x # zs"
proof (induction xss)
  case Nil
  then show ?case by simp
next
  case (Cons ys xss)
  show ?case
  proof (cases ys)
    case Nil
    with Cons show ?thesis by simp
  next
    case (Cons y zs)
    with Cons.prems have "ys = x # zs" by simp
    then show ?thesis by simp
  qed
qed

lemma rx_match_Seq_head:
  assumes b: "\<And>u x xs. rx_match b u = x # xs \<Longrightarrow> Q (snd x)"
    and m: "rx_match (Seq a b) u = x # xs"
  shows "Q (snd x)"
proof -
  let ?f = "\<lambda>(g1, r1). map (\<lambda>(g2, r2). (g1 @ g2, r2)) (rx_match b r1)"
  from m have "concat (map ?f (rx_match a u)) = x # xs"
    by simp
  from concat_head [OF this] obtain ys zs where
    "ys \<in> set (map ?f (rx_match a u))" "ys = x # zs"
    by blast
  then obtain p where "?f p = x # zs"
    unfolding set_map by (elim imageE) (simp only:)
  then obtain g1 r1 where f: "map (\<lambda>(g2, r2). (g1 @ g2, r2)) (rx_match b r1) = x # zs"
    by (cases p) simp
  then obtain y ys' where y: "rx_match b r1 = y # ys'" and x: "x = (\<lambda>(g2, r2). (g1 @ g2, r2)) y"
    by (cases "rx_match b r1") simp_all
  from x have "snd x = snd y"
    by (cases y) simp
  with b [OF y] show ?thesis by simp
qed

lemma rx_match_lit_ci_head:
  assumes b: "\<And>u x xs. rx_match r u = x # xs \<Longrightarrow> Q (snd x)"
  shows "rx_match (lit_ci w r) u = x # xs \<Longrightarrow> Q (snd x)"
proof (induction w arbitrary: u x xs)
  case Nil
  then show ?case using b by (simp add: lit_ci_def)
next
  case (Cons c w)
  from Cons.prems have "rx_match (Seq (Chr (\<lambda>y. lower_char y = lower_char c)) (lit_ci w r)) u = x # xs"
    by (simp add: lit_ci_def)
  then show ?case
    by (rule rx_match_Seq_head [rotated]) (rule Cons.IH)
qed

lemma rx_match_Grp_Rep_head:
  assumes "rx_match (Grp (Rep lo None p)) u = x # xs"
  shows "snd x = [] \<or> \<not> p (hd (snd x))"
proof -
  define k where "k = length (takeWhile p u)"
  have m: "rx_match (Grp (Rep lo None p)) u
             = map (\<lambda>j. ([take (length u - length (drop j u)) u], drop j u)) (rev [lo ..< Suc k])"
    by (simp add: Let_def k_def comp_def del: upt_Suc)
  with assms have "[lo ..< Suc k] \<noteq> []"
    by (auto simp del: upt_Suc)
  then have "lo \<le> k" by (simp split: if_splits)
  then have "rev [lo ..< Suc k] = k # rev [lo ..< k]" by simp
  with m assms have "snd x = drop k u"
    by (auto simp del: upt_Suc rx_match.simps)
  also have "\<dots> = dropWhile p u"
    by (simp add: k_def dropWhile_eq_drop)
  finally show ?thesis
    using hd_dropWhile [of p u] by auto
qed

lemma price_group:
  assumes "group1 PRICE_PAT t = Some grp"
  shows "\<exists>pre m mid post. t = pre @ m @ mid @ grp @ post \<and> lower m = ''quoted price''
           \<and> (\<forall>c\<in>set mid. is_space c \<or> c = CHR ''$'' \<or> c = CHR '':'')
           \<and> grp \<noteq> [] \<and> (\<forall>c\<in>set grp. is_digit c \<or> c = CHR '','')
           \<and> (post = [] \<or> \<not> (is_digit (hd post) \<or> hd post = CHR '',''))
           \<and> (\<forall>i<length pre. rx_match PRICE_PAT (drop i t) = [])"
proof -
  from assms obtain g where s: "rx_search PRICE_PAT t = Some g" and grp: "grp = hd g"
    by (auto simp: group1_def split: option.splits)
  from rx_search_first [OF s] obtain pre u rest ms where
    t: "t = pre @ u" and hdm: "rx_match PRICE_PAT u = (g, rest) # ms"
    and first: "\<forall>i<length pre. rx_match PRICE_PAT (drop i t) = []"
    by blast
  then have m: "(g, rest) \<in> set (rx_match PRICE_PAT u)" by simp
  define Q where "Q = (\<lambda>r. r = [] \<or> \<not> (is_digit (hd r) \<or> hd r = CHR '',''))"
  let ?G = "Grp (Rep 1 None (\<lambda>c. is_digit c \<or> c = CHR '',''))"
  have h4: "Q (snd x)" if "rx_match ?G v = x # xs" for v x xs
    using rx_match_Grp_Rep_head [OF that] by (simp only: Q_def)
  have h3: "Q (snd x)" if "rx_match (Seq (Rep 0 None is_space) ?G) v = x # xs" for v x xs
    using h4 that by (rule rx_match_Seq_head [where Q = Q])
  have h2: "Q (snd x)"
    if "rx_match (Seq (Rep 0 None (\<lambda>c. c = CHR ''$'' \<or> c = CHR '':''))
          (Seq (Rep 0 None is_space) ?G)) v = x # xs" for v x xs
    using h3 that by (rule rx_match_Seq_head [where Q = Q])
  have h1: "Q (snd x)"
    if "rx_match (Seq (Rep 0 None is_space)
          (Seq (Rep 0 None (\<lambda>c. c = CHR ''$'' \<or> c = CHR '':''))
            (Seq (Rep 0 None is_space) ?G))) v = x # xs" for v x xs
    using h2 that by (rule rx_match_Seq_head [where Q = Q])
  have "Q (snd (g, rest))"
    using h1 hdm [unfolded PRICE_PAT_def] by (rule rx_match_lit_ci_head [where Q = Q])
  then have greedy: "rest = [] \<or> \<not> (is_digit (hd rest) \<or> hd rest = CHR '','')"
    by (simp add: Q_def)
  from rx_match_lit_ci [OF m [unfolded PRICE_PAT_def]] obtain mk u1 where
    u: "u = mk @ u1" and mk: "lower mk = lower ''Quoted Price''"
    and m1: "(g, rest) \<in> set (rx_match (Seq (Rep 0 None is_space)
         (Seq (Rep 0 None (\<lambda>c. c = CHR ''$'' \<or> c = CHR '':''))
           (Seq (Rep 0 None is_space)
             (Grp (Rep 1 None (\<lambda>c. is_digit c \<or> c = CHR '','')))))) u1)"
    by blast
  from rx_match_Rep_Seq [OF m1] obtain a1 u2 where
    u1: "u1 = a1 @ u2" and a1: "\<forall>c\<in>set a1. is_space c"
    and m2: "(g, rest) \<in> set (rx_match 
         (Seq (Rep 0 None (\<lambda>c. c = CHR ''$'' \<or> c = CHR '':''))
           (Seq (Rep 0 None is_space)
             (Grp (Rep 1 None (\<lambda>c. is_digit c \<or> c = CHR '',''))))) u2)"
    by blast
  from rx_match_Rep_Seq [OF m2] obtain a2 u3 where
    u2: "u2 = a2 @ u3" and a2: "\<forall>c\<in>set a2. c = CHR ''$'' \<or> c = CHR '':''"
    and m3: "(g, rest) \<in> set (rx_match 
           (Seq (Rep 0 None is_space)
             (Grp (Rep 1 None (\<lambda>c. is_digit c \<or> c = CHR '','')))) u3)"
    by blast
  from rx_match_Rep_Seq [OF m3] obtain a3 u4 where
    u3: "u3 = a3 @ u4" and a3: "\<forall>c\<in>set a3. is_space c"
    and m4: "(g, rest) \<in> set (rx_match (Grp (Rep 1 None (\<lambda>c. is_digit c \<or> c = CHR '',''))) u4)"
    by blast
  from rx_match_Grp_Rep [OF m4] obtain a where
    u4: "u4 = a @ rest" and a: "\<forall>c\<in>set a. is_digit c \<or> c = CHR '',''" "1 \<le> length a" "g = [a]"
    by blast
  have low: "lower ''Quoted Price'' = ''quoted price''"
    by code_simp
  have "t = pre @ mk @ (a1 @ a2 @ a3) @ grp @ rest"
    using t u u1 u2 u3 u4 a(3) grp by simp
  moreover have "lower mk = ''quoted price''"
    using mk low by simp
  moreover have "\<forall>c\<in>set (a1 @ a2 @ a3). is_space c \<or> c = CHR ''$'' \<or> c = CHR '':''"
    using a1 a2 a3 by auto
  moreover have "grp \<noteq> []" "\<forall>c\<in>set grp. is_digit c \<or> c = CHR '',''"
    using a grp by auto
  ultimately have "t = pre @ mk @ (a1 @ a2 @ a3) @ grp @ rest \<and> lower mk = ''quoted price''
           \<and> (\<forall>c\<in>set (a1 @ a2 @ a3). is_space c \<or> c = CHR ''$'' \<or> c = CHR '':'')
           \<and> grp \<noteq> [] \<and> (\<forall>c\<in>set grp. is_digit c \<or> c = CHR '','')
           \<and> (rest = [] \<or> \<not> (is_digit (hd rest) \<or> hd rest = CHR '',''))
           \<and> (\<forall>i<length pre. rx_match PRICE_PAT (drop i t) = [])"
    using greedy first by simp
  then show ?thesis by (intro exI)
qed

subsection \<open>What extraction emits\<close>

lemma card_of_SomeD:
  assumes "card_of today col n = Inr (Some c)"
  shows "column c = col" "text' c = get_text n" "get_text n \<noteq> []"
    "\<exists>tok. group1 DATE_PAT (get_text n) = Some tok \<and> parse_date tok = Some (date c)"
    "age c = days_between today (date c)"
    "price c = Some p \<Longrightarrow>
       \<exists>grp. group1 PRICE_PAT (get_text n) = Some grp
         \<and> py_int (filter (\<lambda>x. x \<noteq> CHR '','') grp) = Inr p"
  using assms
  by (auto simp: card_of_def Let_def bind_Inr_iff split: if_splits option.splits)

lemma card_loop_Inr:
  "card_loop today col ns out = Inr res \<Longrightarrow>
   \<exists>new. res = out @ new
     \<and> (\<forall>c. c \<in> set new \<longleftrightarrow> (\<exists>n\<in>set ns. card_of today col n = Inr (Some c)))"
proof (induction ns arbitrary: out)
  case Nil
  then show ?case by simp
next
  case (Cons n ns)
  from Cons.prems obtain r where r: "card_of today col n = Inr r"
    and rest: "card_loop today col ns (case r of None \<Rightarrow> out | Some c \<Rightarrow> out @ [c]) = Inr res"
    by (auto simp: bind_Inr_iff)
  from Cons.IH [OF rest] obtain new where
    new: "res = (case r of None \<Rightarrow> out | Some c \<Rightarrow> out @ [c]) @ new"
      "\<forall>c. c \<in> set new \<longleftrightarrow> (\<exists>n\<in>set ns. card_of today col n = Inr (Some c))"
    by blast
  show ?case
  proof (cases r)
    case None
    with new r have "res = out @ new"
      "\<forall>c. c \<in> set new \<longleftrightarrow> (\<exists>m\<in>set (n # ns). card_of today col m = Inr (Some c))"
      by auto
    then show ?thesis by blast
  next
    case (Some c0)
    with new r have "res = out @ (c0 # new)"
      "\<forall>c. c \<in> set (c0 # new) \<longleftrightarrow> (\<exists>m\<in>set (n # ns). card_of today col m = Inr (Some c))"
      by auto
    then show ?thesis by blast
  qed
qed

lemma outer_loop_Inr:
  "outer_loop today os out = Inr res \<Longrightarrow>
   \<exists>new. res = out @ new
     \<and> (\<forall>c. c \<in> set new \<longleftrightarrow> (\<exists>outer\<in>set os. emitted_by today outer c))"
proof (induction os arbitrary: out)
  case Nil
  then show ?case by simp
next
  case (Cons outer os)
  show ?case
  proof (cases "find_header outer")
    case None
    with Cons.prems have "outer_loop today os out = Inr res" by simp
    from Cons.IH [OF this] obtain new where
      "res = out @ new" "\<forall>c. c \<in> set new \<longleftrightarrow> (\<exists>outer\<in>set os. emitted_by today outer c)"
      by blast
    moreover have "\<not> emitted_by today outer c" for c
      using None by (simp add: emitted_by_def)
    ultimately have "res = out @ new"
      "\<forall>c. c \<in> set new \<longleftrightarrow> (\<exists>o'\<in>set (outer # os). emitted_by today o' c)"
      by auto
    then show ?thesis by blast
  next
    case (Some h)
    with Cons.prems obtain mid where
      mid: "card_loop today (get_text h) (candidates outer) out = Inr mid"
      and rest: "outer_loop today os mid = Inr res"
      by (auto simp: bind_Inr_iff)
    from card_loop_Inr [OF mid] obtain new1 where
      n1: "mid = out @ new1"
        "\<forall>c. c \<in> set new1 \<longleftrightarrow> (\<exists>n\<in>set (candidates outer). card_of today (get_text h) n = Inr (Some c))"
      by blast
    from Cons.IH [OF rest] obtain new2 where
      n2: "res = mid @ new2" "\<forall>c. c \<in> set new2 \<longleftrightarrow> (\<exists>outer\<in>set os. emitted_by today outer c)"
      by blast
    have e: "emitted_by today outer c \<longleftrightarrow> c \<in> set new1" for c
      using Some n1(2) by (simp add: emitted_by_def)
    have "res = out @ (new1 @ new2)" using n1 n2 by simp
    moreover have "\<forall>c. c \<in> set (new1 @ new2) \<longleftrightarrow> (\<exists>o'\<in>set (outer # os). emitted_by today o' c)"
      using e n2(2) by auto
    ultimately show ?thesis by blast
  qed
qed

lemma extract_cards_Inr:
  assumes "extract_cards now soup = Inr cards"
  shows "c \<in> set cards \<longleftrightarrow> (\<exists>outer\<in>set (find_all_outer soup). emitted_by (date_of now) outer c)"
  using outer_loop_Inr [OF assms [unfolded extract_cards_def]] by auto

lemma extract_cards_cardD:
  assumes "extract_cards now soup = Inr cards" "c \<in> set cards"
  obtains outer h n where "outer \<in> set (find_all_outer soup)" "find_header outer = Some h"
    "n \<in> set (candidates outer)" "card_of (date_of now) (get_text h) n = Inr (Some c)"
  using assms by (auto simp: extract_cards_Inr emitted_by_def)

lemma digits_value_nonneg_aux:
  "0 \<le> a \<Longrightarrow> list_all is_digit s \<Longrightarrow> 0 \<le> foldl (\<lambda>a c. 10 * a + digit_val c) a s"
  by (induction s arbitrary: a) (auto simp: is_digit_def digit_val_def)

lemma py_int_Inr: "py_int s = Inr p \<Longrightarrow> p = digits_value s \<and> 0 \<le> p"
  by (auto simp: py_int_def digits_value_def digits_value_nonneg_aux split: if_splits)

text \<open>
  C10.  A price carried by an extracted card is the number denoted by the digits of the
  group that \<open>PRICE_PAT\<close> captures in the card's text, the commas removed wherever
  they stand, and it is not negative.  The group is the first one in the text: a
  non-empty run of digits and commas, as long as it can be, that follows the marker
  \<open>Quoted Price\<close> (in any case) after spaces, \<open>$\<close> and \<open>:\<close> only, at the
  leftmost position where the pattern matches.  The witness is the text
  \<open>Quoted Price 1,2\<close>, whose price is 12.
\<close>

theorem quoted_price_value:
  assumes "extract_cards now soup = Inr cards" "c \<in> set cards" "price c = Some p"
  shows "\<exists>grp. group1 PRICE_PAT (text' c) = Some grp
           \<and> p = digits_value (filter (\<lambda>x. x \<noteq> CHR '','') grp) \<and> 0 \<le> p
           \<and> (\<exists>pre m mid post. text' c = pre @ m @ mid @ grp @ post
                 \<and> lower m = ''quoted price''
                 \<and> (\<forall>x\<in>set mid. is_space x \<or> x = CHR ''$'' \<or> x = CHR '':'')
                 \<and> grp \<noteq> [] \<and> (\<forall>x\<in>set grp. is_digit x \<or> x = CHR '','')
                 \<and> (post = [] \<or> \<not> (is_digit (hd post) \<or> hd post = CHR '',''))
                 \<and> (\<forall>i<length pre. rx_match PRICE_PAT (drop i (text' c)) = []))"
proof -
  from assms(1,2) obtain outer h n where
    c: "card_of (date_of now) (get_text h) n = Inr (Some c)"
    by (rule extract_cards_cardD)
  from card_of_SomeD(2) [OF c] card_of_SomeD(6) [OF c assms(3)] obtain grp where
    grp: "group1 PRICE_PAT (text' c) = Some grp"
    and p: "py_int (filter (\<lambda>x. x \<noteq> CHR '','') grp) = Inr p"
    by auto
  from py_int_Inr [OF p] have "p = digits_value (filter (\<lambda>x. x \<noteq> CHR '','') grp) \<and> 0 \<le> p" .
  with grp price_group [OF grp] show ?thesis
    by (intro exI [of _ grp]) simp
qed

theorem quoted_price_value_witness:
  "extract_cards now0 price_doc
     = Inr [\<lparr>column = ''Scheduled'', text' = ''Received: 01/02/23 Quoted Price 1,2'',
             date = \<lparr>year = 2023, month = 1, day = 2\<rparr>, age = 10, price = Some 12\<rparr>]
   \<and> group1 PRICE_PAT ''Received: 01/02/23 Quoted Price 1,2'' = Some ''1,2''
   \<and> digits_value (filter (\<lambda>x. x \<noteq> CHR '','') ''1,2'') = 12"
proof -
  let ?c = "\<lparr>column = ''Scheduled'', text' = ''Received: 01/02/23 Quoted Price 1,2'',
             date = \<lparr>year = 2023, month = 1, day = 2\<rparr>, age = 10, price = Some 12\<rparr>"
  have e: "extract_cards now0 price_doc = Inr [?c]"
    by code_simp
  have "?c \<in> set [?c]" "price ?c = Some 12" by simp_all
  from quoted_price_value [OF e this] obtain grp where
    "group1 PRICE_PAT ''Received: 01/02/23 Quoted Price 1,2'' = Some grp"
    "12 = digits_value (filter (\<lambda>x. x \<noteq> CHR '','') grp)"
    by auto
  moreover have "group1 PRICE_PAT ''Received: 01/02/23 Quoted Price 1,2'' = Some ''1,2''"
    by code_simp
  ultimately show ?thesis using e by simp
qed

text \<open>
  C4.  Two passes over the same document whose clocks show the same date yield the same
  cards and the same report tables: the clock is read once, only its date is used, and
  every age is the distance of the card's date from that one date.
\<close>

theorem same_date_same_report:
  assumes "date_of now1 = date_of now2"
  shows "analyze now1 soup = analyze now2 soup
    \<and> extract_cards now1 soup = extract_cards now2 soup
    \<and> (\<forall>cards. extract_cards now1 soup = Inr cards \<longrightarrow>
          (\<forall>c\<in>set cards. age c = days_between (date_of now1) (date c)))"
proof -
  have "age c = days_between (date_of now1) (date c)"
    if "extract_cards now1 soup = Inr cards" "c \<in> set cards" for cards c
  proof -
    from that obtain outer h n where
      "card_of (date_of now1) (get_text h) n = Inr (Some c)"
      by (rule extract_cards_cardD)
    then show ?thesis by (rule card_of_SomeD(5))
  qed
  with assms show ?thesis
    by (simp add: analyze_def extract_cards_def)
qed


theorem same_date_same_report_witness:
  "date_of now0 = date_of (now0\<lparr>dt_hour := 23, dt_minute := 59\<rparr>)
   \<and> analyze now0 price_doc = analyze (now0\<lparr>dt_hour := 23, dt_minute := 59\<rparr>) price_doc"
proof -
  have h: "date_of now0 = date_of (now0\<lparr>dt_hour := 23, dt_minute := 59\<rparr>)"
    by (simp add: date_of_def)
  show ?thesis
    using h same_date_same_report [OF h, of price_doc] by simp
qed

subsection \<open>The fallback scan\<close>

lemma find_header_in_divs:
  assumes "find_header outer = Some h"
  shows "h \<in> set (find_all_div outer)"
proof -
  from assms have "h \<in> set (descendants outer)" "div_with_class ''_headerName_'' h"
    by (auto simp: find_header_def find_Some_iff)
  moreover from this(2) have "is_div h"
    by (cases h) (simp_all add: div_with_class_def is_div_def)
  ultimately show ?thesis by (simp add: find_all_div_def)
qed

lemma card_of_dated:
  assumes "dated n" "card_of today col n = Inr r"
  shows "\<exists>c. r = Some c \<and> column c = col \<and> text' c = get_text n"
  using assms
  by (auto simp: dated_def card_of_def Let_def bind_Inr_iff split: option.splits)

lemma card_of_text: "get_text m = get_text n \<Longrightarrow> card_of today col m = card_of today col n"
  by (simp add: card_of_def)

lemma strings_of_nest: "strings_of (nest k (Tag nm cls ch)) = []"
  by (cases k) (simp_all add: strings_of_def)

lemma no_class_div: "\<not> div_with_class (c # p) (Tag ''div'' [] ch)"
  by (simp add: div_with_class_def class_matches_def)

lemma not_class_nest: "\<not> div_with_class (c # p) (nest k plain_card)"
  by (cases k) (simp_all add: plain_card_def div_with_class_def class_matches_def)

lemma card_loop_ok:
  "card_loop today col ns out = Inr res \<Longrightarrow> \<forall>n\<in>set ns. \<exists>r. card_of today col n = Inr r"
  by (induction ns arbitrary: out) (auto simp: bind_Inr_iff)

lemma outer_loop_ok:
  "outer_loop today os out = Inr res \<Longrightarrow>
   \<forall>outer\<in>set os. \<forall>h. find_header outer = Some h \<longrightarrow>
     (\<forall>n\<in>set (candidates outer). \<exists>r. card_of today (get_text h) n = Inr r)"
proof (induction os arbitrary: out)
  case Nil
  then show ?case by simp
next
  case (Cons outer os)
  show ?case
  proof (cases "find_header outer")
    case None
    with Cons.prems have "outer_loop today os out = Inr res" by simp
    from Cons.IH [OF this] None show ?thesis by simp
  next
    case (Some h)
    with Cons.prems obtain mid where
      mid: "card_loop today (get_text h) (candidates outer) out = Inr mid"
      and rest: "outer_loop today os mid = Inr res"
      by (auto simp: bind_Inr_iff)
    from card_loop_ok [OF mid] Cons.IH [OF rest] Some show ?thesis by simp
  qed
qed

lemma strings_nest:
  "concat (map strings_of (descendants (nest k (Tag nm cls ch))))
     = concat (map strings_of (descendants (Tag nm cls ch)))"
  by (induction k) (simp_all add: strings_of_nest)

lemma get_text_nest: "get_text (nest k (Tag nm cls ch)) = get_text (Tag nm cls ch)"
  by (simp add: get_text_def strings_nest)

lemma is_div_nest: "is_div (Tag nm cls ch) \<Longrightarrow> is_div (nest k (Tag nm cls ch))"
  by (cases k) (simp_all add: is_div_def)

lemma divs_nest:
  "filter is_div (nest k plain_card # descendants (nest k plain_card))
     = map (\<lambda>j. nest j plain_card) (rev [0 ..< Suc k])"
proof (induction k)
  case 0
  show ?case by (simp add: plain_card_def is_div_def)
next
  case (Suc k)
  have "is_div (nest (Suc k) plain_card)" by (simp add: is_div_def)
  with Suc show ?case by simp
qed

lemma no_card_class_nest:
  "filter (\<lambda>n. case n of Tag nm cls ch \<Rightarrow> nm = ''div'' \<and> ''card'' \<in> set cls | _ \<Rightarrow> False)
     (nest k plain_card # descendants (nest k plain_card)) = []"
  by (induction k) (simp_all add: plain_card_def)

lemma card_loop_all_emit:
  "\<forall>n\<in>set ns. card_of today col n = Inr (Some c) \<Longrightarrow>
   card_loop today col ns out = Inr (out @ replicate (length ns) c)"
proof (induction ns arbitrary: out)
  case Nil
  then show ?case by simp
next
  case (Cons n ns)
  then show ?case
    by (simp add: bind_def replicate_app_Cons_same)
qed

lemma card_of_plain:
  "card_of (date_of now0) ''Scheduled'' plain_card = Inr (Some nested_card)"
  by code_simp

lemma card_of_nest:
  "card_of (date_of now0) ''Scheduled'' (nest j plain_card) = Inr (Some nested_card)"
  using card_of_text [OF get_text_nest, of "date_of now0" "''Scheduled''" j "''div''" "[]"
      "[NavigableString ''Received: 01/02/23'']"] card_of_plain
  by (simp add: plain_card_def)

lemma extract_nested: "extract_cards now0 (nested_doc k) = Inr (replicate (Suc k) nested_card)"
proof -
  let ?hdr = "Tag ''div'' [''_headerName_3c4d''] [NavigableString ''Scheduled'']"
  let ?outer = "Tag ''div'' [''_outerWrapper_1a2b''] [?hdr, nest k plain_card]"
  let ?D = "nest k plain_card # descendants (nest k plain_card)"
  have nav: "\<not> div_with_class p (NavigableString t)" for p t
    by (simp add: div_with_class_def)
  have not_outer: "filter (div_with_class ''_outerWrapper_'') ?D = []"
    by (induction k) (simp_all add: no_class_div nav plain_card_def)
  have not_hdr: "find (div_with_class ''_headerName_'') ?D = None"
    by (induction k) (simp_all add: no_class_div nav plain_card_def)
  have o: "div_with_class ''_outerWrapper_'' ?outer"
    by code_simp
  have h1: "div_with_class ''_headerName_'' ?hdr"
    by code_simp
  have h2: "\<not> div_with_class ''_outerWrapper_'' ?hdr"
    by code_simp
  have outers: "find_all_outer (nested_doc k) = [?outer]"
    using not_outer o h2 by (simp add: find_all_outer_def nested_doc_def div_with_class_def)
  have hdr: "find_header ?outer = Some ?hdr"
    using h1 by (simp add: find_header_def)
  have "select_div_card ?outer = []"
    using no_card_class_nest [of k] by (simp add: select_div_card_def)
  moreover have "find_all_div ?outer = ?hdr # map (\<lambda>j. nest j plain_card) (rev [0 ..< Suc k])"
    using divs_nest [of k] by (simp add: find_all_div_def is_div_def)
  ultimately have cand: "candidates ?outer = ?hdr # map (\<lambda>j. nest j plain_card) (rev [0 ..< Suc k])"
    by (simp add: candidates_def)
  have col: "get_text ?hdr = ''Scheduled''"
    by code_simp
  have hc: "card_of (date_of now0) ''Scheduled'' ?hdr = Inr None"
    by code_simp
  have "card_loop (date_of now0) ''Scheduled'' (map (\<lambda>j. nest j plain_card) (rev [0 ..< Suc k])) []
          = Inr ([] @ replicate (length (map (\<lambda>j. nest j plain_card) (rev [0 ..< Suc k]))) nested_card)"
    by (rule card_loop_all_emit) (auto simp: card_of_nest)
  then have "card_loop (date_of now0) ''Scheduled'' (candidates ?outer) []
          = Inr (replicate (Suc k) nested_card)"
    unfolding cand using hc by (simp add: bind_def del: upt_Suc)
  then show ?thesis
    unfolding extract_cards_def outers using hdr col by (simp add: bind_def)
qed

text \<open>
  C9.  In a column where \<open>div.card\<close> selects nothing, the candidates are all the divs
  below the column: the header is one of them, and when its own text holds a date that
  parses it is emitted as a card of the column it names; a dated card inside \<open>k\<close>
  further divs is emitted \<open>k + 1\<close> times, once for each wrapper, with the same text.
\<close>

theorem fallback_scan_candidates:
  assumes "select_div_card outer = []"
  shows "candidates outer = filter is_div (descendants outer)
    \<and> (\<forall>h. find_header outer = Some h \<longrightarrow> h \<in> set (candidates outer))
    \<and> (\<forall>h soup now cards.
          outer \<in> set (find_all_outer soup) \<and> find_header outer = Some h \<and> dated h
            \<and> extract_cards now soup = Inr cards
          \<longrightarrow> (\<exists>c\<in>set cards. column c = get_text h \<and> text' c = get_text h))
    \<and> extract_cards now0 (nested_doc k) = Inr (replicate (Suc k) nested_card)"
proof -
  have cand: "candidates outer = filter is_div (descendants outer)"
    using assms by (simp add: candidates_def find_all_div_def)
  have hdr: "h \<in> set (candidates outer)" if "find_header outer = Some h" for h
    using find_header_in_divs [OF that] assms by (simp add: candidates_def)
  have emit: "\<exists>c\<in>set cards. column c = get_text h \<and> text' c = get_text h"
    if o: "outer \<in> set (find_all_outer soup)" and h: "find_header outer = Some h"
      and d: "dated h" and e: "extract_cards now soup = Inr cards" for h soup now cards
  proof -
    from e have "\<forall>outer\<in>set (find_all_outer soup). \<forall>h. find_header outer = Some h \<longrightarrow>
        (\<forall>n\<in>set (candidates outer). \<exists>r. card_of (date_of now) (get_text h) n = Inr r)"
      unfolding extract_cards_def by (rule outer_loop_ok)
    with o h hdr [OF h] obtain r where r: "card_of (date_of now) (get_text h) h = Inr r"
      by blast
    from card_of_dated [OF d r] obtain c where
      c: "r = Some c" "column c = get_text h" "text' c = get_text h" by blast
    with r h hdr [OF h] have "emitted_by (date_of now) outer c"
      by (auto simp: emitted_by_def)
    with o have "c \<in> set cards"
      unfolding extract_cards_Inr [OF e] by blast
    with c show ?thesis by blast
  qed
  from cand hdr emit extract_nested show ?thesis by blast
qed

theorem fallback_scan_candidates_witness:
  "select_div_card (hd (find_all_outer header_doc)) = []
   \<and> extract_cards now0 header_doc
       = Inr [\<lparr>column = ''Scheduled (received 1/2/23)'', text' = ''Scheduled (received 1/2/23)'',
               date = \<lparr>year = 2023, month = 1, day = 2\<rparr>, age = 10, price = None\<rparr>]
   \<and> extract_cards now0 (nested_doc 2) = Inr [nested_card, nested_card, nested_card]"
proof -
  let ?outer = "hd (find_all_outer header_doc)"
  let ?h = "Tag ''div'' [''_headerName_3c4d''] [NavigableString ''Scheduled (received 1/2/23)'']"
  let ?c = "\<lparr>column = ''Scheduled (received 1/2/23)'', text' = ''Scheduled (received 1/2/23)'',
               date = \<lparr>year = 2023, month = 1, day = 2\<rparr>, age = 10, price = None\<rparr>"
  have s: "select_div_card ?outer = []" by code_simp
  have o: "?outer \<in> set (find_all_outer header_doc)" by code_simp
  have h: "find_header ?outer = Some ?h" by code_simp
  have d: "dated ?h" by code_simp
  have e: "extract_cards now0 header_doc = Inr [?c]" by code_simp
  note t = fallback_scan_candidates [OF s, of 2]
  from t o h d e have "\<exists>c\<in>set [?c]. column c = get_text ?h \<and> text' c = get_text ?h"
    by blast
  moreover from t have "extract_cards now0 (nested_doc 2) = Inr (replicate (Suc 2) nested_card)"
    by blast
  ultimately show ?thesis using s e by (simp add: numeral_3_eq_3)
qed

subsection \<open>The average age\<close>

lemma row0_of_scope:
  assumes "build_report cards = Inr rep"
  shows "scope rep \<noteq> []"
    and "Scope_Count (scope rep ! 0)
           = length (filter (\<lambda>c. column c \<notin> EXCLUDED_COLUMNS_FOR_AGE) cards)"
    and "avg (map age (filter (\<lambda>c. column c \<notin> EXCLUDED_COLUMNS_FOR_AGE) cards))
           = Inr (Scope_Average_Age (scope rep ! 0))"
proof -
  let ?active = "filter (\<lambda>c. column c \<notin> EXCLUDED_COLUMNS_FOR_AGE) cards"
  from assms obtain a0 srows where a0: "avg (map age ?active) = Inr a0"
    and loop: "scope_loop ?active FOCUSED_LABELS
       [\<lparr>Scope = ''All cards (excluding Completed/Canceled)'',
         Scope_Count = length ?active, Scope_Average_Age = a0\<rparr>] = Inr srows"
    and rep: "scope rep = srows"
    by (rule build_report_Inr)
  from scope_loop_Inr [OF loop] obtain new where
    "srows = [\<lparr>Scope = ''All cards (excluding Completed/Canceled)'',
         Scope_Count = length ?active, Scope_Average_Age = a0\<rparr>] @ new"
    by blast
  with rep a0 show "scope rep \<noteq> []" "Scope_Count (scope rep ! 0) = length ?active"
    "avg (map age ?active) = Inr (Scope_Average_Age (scope rep ! 0))"
    by simp_all
qed

lemma label_ages_none:
  "\<forall>c\<in>set cs. \<not> contains (lower (text' c)) (lower l) \<Longrightarrow> label_ages cs l = []"
  by (simp add: label_ages_def filter_empty_conv)

lemma scope_loop_unlabelled:
  "\<forall>l\<in>set ls. label_ages cs l = [] \<Longrightarrow>
   scope_loop cs ls rows
     = Inr (rows @ map (\<lambda>l. \<lparr>Scope = l, Scope_Count = 0, Scope_Average_Age = PyInt 0\<rparr>) ls)"
  by (induction ls arbitrary: rows) (simp_all add: avg_or_0_def bind_def)

lemma label_loop_unlabelled:
  "\<forall>l\<in>set ls. label_ages cs l = [] \<Longrightarrow>
   label_loop cs ls rows
     = Inr (rows @ map (\<lambda>l. \<lparr>Label = l, Label_Count = 0, Label_Average_Age = PyInt 0\<rparr>) ls)"
  by (induction ls arbitrary: rows) (simp_all add: avg_or_0_def bind_def)

lemma prices_of_none: "\<forall>c\<in>set cs. price c = None \<Longrightarrow> prices_of (filter P cs) = []"
  by (simp add: prices_of_def filter_empty_conv)

lemma tie_active: "filter (\<lambda>c. column c \<notin> EXCLUDED_COLUMNS_FOR_AGE) tie_cards = tie_cards"
  by code_simp

lemma tie_unlabelled: "l \<in> set (FOCUSED_LABELS @ ALL_LABELS) \<Longrightarrow> label_ages tie_cards l = []"
proof -
  assume l: "l \<in> set (FOCUSED_LABELS @ ALL_LABELS)"
  have "list_all (\<lambda>l. \<not> contains (lower ''Received: 09/27/22'') (lower l)
                      \<and> \<not> contains (lower ''Received: 01/12/23'') (lower l))
          (FOCUSED_LABELS @ ALL_LABELS)"
    by code_simp
  with l have "\<not> contains (lower ''Received: 09/27/22'') (lower l)"
    "\<not> contains (lower ''Received: 01/12/23'') (lower l)"
    unfolding list_all_iff by blast+
  then have "\<forall>c\<in>set tie_cards. \<not> contains (lower (text' c)) (lower l)"
    by (simp add: tie_cards_def)
  then show ?thesis by (rule label_ages_none)
qed

lemma tie_avg: "avg (map age tie_cards) = bind (float_div 267 100) (\<lambda>x. Inr (PyFloat x))"
  by code_simp

lemma tie_float: "float_div 267 100 = Inr (1503076375634903 / 562949953421312)"
  by code_simp

lemma tie_lanes: "\<not> isl (lane_loop tie_cards REQUESTED_LANES [])"
  by code_simp

lemma build_report_tie_ok: "\<not> isl (build_report tie_cards)"
proof -
  have p: "prices_of (filter P tie_cards) = []" for P
    by (rule prices_of_none) (simp add: tie_cards_def)
  have p0: "prices_of tie_cards = []"
    using p [of "\<lambda>c. True"] by simp
  obtain lr where lr: "lane_loop tie_cards REQUESTED_LANES [] = Inr lr"
    using tie_lanes by (cases "lane_loop tie_cards REQUESTED_LANES []") simp_all
  have s: "\<forall>l\<in>set FOCUSED_LABELS. label_ages tie_cards l = []"
    and a: "\<forall>l\<in>set ALL_LABELS. label_ages tie_cards l = []"
    using tie_unlabelled by simp_all
  show ?thesis
    by (simp add: build_report_def tie_active tie_avg tie_float bind_def p p0 lr
        scope_loop_unlabelled [OF s] label_loop_unlabelled [OF a] avg_or_0_def)
qed

lemma extract_tie: "extract_cards now0 tie_doc = Inr tie_cards"
proof -
  let ?hdr = "Tag ''div'' [''_headerName_3c4d''] [NavigableString ''Scheduled'']"
  let ?n1 = "Tag ''div'' [''card''] [NavigableString ''Received: 09/27/22'']"
  let ?n0 = "Tag ''div'' [''card''] [NavigableString ''Received: 01/12/23'']"
  let ?outer = "Tag ''div'' [''_outerWrapper_1a2b''] (?hdr # ?n1 # replicate 39 ?n0)"
  let ?c1 = "\<lparr>column = ''Scheduled'', text' = ''Received: 09/27/22'',
      date = \<lparr>year = 2022, month = 9, day = 27\<rparr>, age = 107, price = None\<rparr>"
  let ?c0 = "\<lparr>column = ''Scheduled'', text' = ''Received: 01/12/23'',
          date = \<lparr>year = 2023, month = 1, day = 12\<rparr>, age = 0, price = None\<rparr>"
  have outers: "find_all_outer tie_doc = [?outer]"
    by code_simp
  have hdr: "find_header ?outer = Some ?hdr"
    by code_simp
  have cand: "candidates ?outer = ?n1 # replicate 39 ?n0"
    by code_simp
  have col: "get_text ?hdr = ''Scheduled''"
    by code_simp
  have c1: "card_of (date_of now0) ''Scheduled'' ?n1 = Inr (Some ?c1)"
    by code_simp
  have c0: "card_of (date_of now0) ''Scheduled'' ?n0 = Inr (Some ?c0)"
    by code_simp
  have "card_loop (date_of now0) ''Scheduled'' (replicate 39 ?n0) [?c1]
          = Inr ([?c1] @ replicate (length (replicate 39 ?n0)) ?c0)"
    by (rule card_loop_all_emit) (simp add: c0)
  then have "card_loop (date_of now0) ''Scheduled'' (candidates ?outer) [] = Inr tie_cards"
    unfolding cand by (simp add: c1 bind_def tie_cards_def)
  then show ?thesis
    unfolding extract_cards_def outers using hdr col by (simp add: bind_def)
qed

text \<open>
  C1.  The claim: the average age of row 0 equals the arithmetic mean of the ages of the
  cards that are not excluded, rounded to 2 decimal places.  It fails for forty open
  cards of which one is 107 days old and the others 0: the mean is \<open>2.675\<close>, which
  rounds to \<open>2.68\<close> whether a tie goes to the even digit or up, and the row holds the
  float of \<open>2.67\<close>.  \<open>statistics.mean\<close> returns the float nearest to \<open>2.675\<close>,
  which lies below it, and \<open>round\<close> then rounds that float.
\<close>

theorem mean_rounded_twice:
  "extract_cards now0 tie_doc = Inr tie_cards
   \<and> \<not> isl (build_report tie_cards)
   \<and> Scope_Count (scope (projr (build_report tie_cards)) ! 0) = 40
   \<and> (of_int (sum_list (map age tie_cards)) / of_int (int (length tie_cards)) :: rat) = 2675 / 1000
   \<and> hundredths round_half_even (map age tie_cards) = 268
   \<and> hundredths round_half_up (map age tie_cards) = 268
   \<and> float_div 267 100
        = Inr (num_val (Scope_Average_Age (scope (projr (build_report tie_cards)) ! 0)))
   \<and> float_div 268 100
        \<noteq> Inr (num_val (Scope_Average_Age (scope (projr (build_report tie_cards)) ! 0)))
   \<and> 1 / 200 < \<bar>268 / 100 - num_val (Scope_Average_Age (scope (projr (build_report tie_cards)) ! 0))\<bar>"
proof -
  have ok: "build_report tie_cards = Inr (projr (build_report tie_cards))"
    using build_report_tie_ok by simp
  have n: "length tie_cards = 40"
    by (simp add: tie_cards_def)
  have a: "Scope_Average_Age (scope (projr (build_report tie_cards)) ! 0)
             = PyFloat (1503076375634903 / 562949953421312)"
    using row0_of_scope(3) [OF ok] by (simp add: tie_active tie_avg tie_float bind_def)
  have c: "Scope_Count (scope (projr (build_report tie_cards)) ! 0) = 40"
    using row0_of_scope(2) [OF ok] by (simp add: tie_active n)
  have m: "(of_int (sum_list (map age tie_cards)) / of_int (int (length tie_cards)) :: rat)
             = 2675 / 1000"
    by code_simp
  have h: "hundredths round_half_even (map age tie_cards) = 268"
    "hundredths round_half_up (map age tie_cards) = 268"
    by code_simp+
  have f: "float_div 268 100 \<noteq> Inr (1503076375634903 / 562949953421312)"
    by code_simp
  have d: "(1 / 200 :: rat) < \<bar>268 / 100 - 1503076375634903 / 562949953421312\<bar>"
    by simp
  show ?thesis
    using extract_tie build_report_tie_ok c m h f d by (simp add: a num_val_def tie_float)
qed

text \<open>
  C1, amended.  Whenever the report is produced, row 0 of the Scope table counts the
  cards whose column is not excluded, and its average is \<open>0.0\<close> when there is none and
  otherwise \<open>round(statistics.mean(ages), 2)\<close>, which rounds twice: the mean to the
  nearest float, unless it is whole, and that float to 2 decimal places.  The result is
  the arithmetic mean rounded to 2 decimal places, the number itself or the float nearest
  to it, whenever \<open>100 * mean\<close> is farther from a tie than the first rounding can
  move it; for sums and counts below \<open>2 ^ 53 / 200\<close> it is in every case the float of
  a number with two decimal places within half a hundredth of the mean.
\<close>

theorem scope_row0:
  assumes "build_report cards = Inr rep"
  shows "scope rep \<noteq> []
    \<and> Scope_Count (scope rep ! 0)
        = length (filter (\<lambda>c. column c \<notin> EXCLUDED_COLUMNS_FOR_AGE) cards)
    \<and> Inr (Scope_Average_Age (scope rep ! 0))
        = (if filter (\<lambda>c. column c \<notin> EXCLUDED_COLUMNS_FOR_AGE) cards = [] then Inr (PyFloat 0)
           else bind (mean (map age (filter (\<lambda>c. column c \<notin> EXCLUDED_COLUMNS_FOR_AGE) cards)))
                  py_round2)
    \<and> (filter (\<lambda>c. column c \<notin> EXCLUDED_COLUMNS_FOR_AGE) cards \<noteq> []
         \<and> int (length (filter (\<lambda>c. column c \<notin> EXCLUDED_COLUMNS_FOR_AGE) cards)) < 2 ^ 1022
         \<and> away_from_tie (map age (filter (\<lambda>c. column c \<notin> EXCLUDED_COLUMNS_FOR_AGE) cards))
       \<longrightarrow> num_val (Scope_Average_Age (scope rep ! 0))
             = of_int (hundredths round_half_even
                 (map age (filter (\<lambda>c. column c \<notin> EXCLUDED_COLUMNS_FOR_AGE) cards))) / 100
           \<or> float_div (hundredths round_half_even
                 (map age (filter (\<lambda>c. column c \<notin> EXCLUDED_COLUMNS_FOR_AGE) cards))) 100
             = Inr (num_val (Scope_Average_Age (scope rep ! 0))))
    \<and> (filter (\<lambda>c. column c \<notin> EXCLUDED_COLUMNS_FOR_AGE) cards \<noteq> []
         \<and> 200 * \<bar>sum_list (map age (filter (\<lambda>c. column c \<notin> EXCLUDED_COLUMNS_FOR_AGE) cards))\<bar>
               < 2 ^ 53
         \<and> 200 * int (length (filter (\<lambda>c. column c \<notin> EXCLUDED_COLUMNS_FOR_AGE) cards)) < 2 ^ 53
       \<longrightarrow> (\<exists>K. \<bar>of_int K / 100
                   - (of_int (sum_list (map age
                        (filter (\<lambda>c. column c \<notin> EXCLUDED_COLUMNS_FOR_AGE) cards)))
                      / of_int (int (length
                        (filter (\<lambda>c. column c \<notin> EXCLUDED_COLUMNS_FOR_AGE) cards))) :: rat)\<bar>
                 \<le> 1 / 200
               \<and> float_div K 100 = Inr (num_val (Scope_Average_Age (scope rep ! 0)))))"
proof -
  let ?active = "filter (\<lambda>c. column c \<notin> EXCLUDED_COLUMNS_FOR_AGE) cards"
  let ?a0 = "Scope_Average_Age (scope rep ! 0)"
  note row0 = row0_of_scope [OF assms]
  from row0(3) have m: "Inr ?a0 = (if ?active = [] then Inr (PyFloat 0)
           else bind (mean (map age ?active)) py_round2)"
    by (simp add: avg_def split: if_splits)
  have exact: "num_val ?a0 = of_int (hundredths round_half_even (map age ?active)) / 100
      \<or> float_div (hundredths round_half_even (map age ?active)) 100 = Inr (num_val ?a0)"
    if "?active \<noteq> []" "int (length ?active) < 2 ^ 1022" "away_from_tie (map age ?active)"
    using avg_away_from_tie [of "map age ?active" ?a0] that row0(3) by simp
  have near: "\<exists>K. \<bar>of_int K / 100
                   - (of_int (sum_list (map age ?active)) / of_int (int (length ?active)) :: rat)\<bar>
                 \<le> 1 / 200
               \<and> float_div K 100 = Inr (num_val ?a0)"
    if "?active \<noteq> []" "200 * \<bar>sum_list (map age ?active)\<bar> < 2 ^ 53"
      "200 * int (length ?active) < 2 ^ 53"
    using avg_near_mean [of "map age ?active" ?a0] that row0(3) by simp
  from row0(1,2) m exact near show ?thesis by blast
qed

theorem scope_row0_witness:
  "\<not> isl (build_report cards0)
   \<and> Scope_Count (scope (projr (build_report cards0)) ! 0) = 2
   \<and> Scope_Average_Age (scope (projr (build_report cards0)) ! 0) = PyFloat (21 / 2)
   \<and> away_from_tie [10, 11]
   \<and> hundredths round_half_even [10, 11] = 1050
   \<and> float_div 1050 100 = Inr (21 / 2)"
proof -
  have ok: "build_report cards0 = Inr (projr (build_report cards0))"
    using build_report_cards0_ok by simp
  have act: "map age (filter (\<lambda>c. column c \<notin> EXCLUDED_COLUMNS_FOR_AGE) cards0) = [10, 11]"
    by code_simp
  have n: "length (filter (\<lambda>c. column c \<notin> EXCLUDED_COLUMNS_FOR_AGE) cards0) = 2"
    by code_simp
  have ne: "filter (\<lambda>c. column c \<notin> EXCLUDED_COLUMNS_FOR_AGE) cards0 \<noteq> []"
    using n by auto
  have m: "bind (mean [10, 11]) py_round2 = Inr (PyFloat (21 / 2))"
    by code_simp
  have t: "away_from_tie [10, 11]" "hundredths round_half_even [10, 11] = 1050"
    "float_div 1050 100 = Inr (21 / 2)"
    by code_simp+
  from scope_row0 [OF ok] show ?thesis
    using build_report_cards0_ok t by (simp add: n ne m act)
qed

subsection \<open>The price summary\<close>

lemma avg_or_0_consistent:
  assumes "avg_or_0 xs = Inr m"
  shows "if whole_beyond_float (length xs) (sum_or_0 xs)
         then m = PyInt (sum_or_0 xs div int (length xs))
         else mean_consistent (length xs) (sum_or_0 xs) m"
proof (cases "xs = []")
  case True
  with assms show ?thesis
    by (simp add: avg_or_0_def sum_or_0_def whole_beyond_float_def mean_consistent_def)
next
  case False
  define n where "n = length xs"
  define s where "s = sum_list xs"
  have n: "0 < n" "0 < int n" using False by (simp_all add: n_def)
  have s: "sum_or_0 xs = s" using False by (simp add: sum_or_0_def s_def)
  from assms False have m: "bind (mean xs) py_round2 = Inr m"
    by (simp add: avg_or_0_def avg_def)
  show ?thesis
  proof (cases "s mod int n = 0")
    case True
    with m have mv: "m = PyInt (s div int n)"
      by (simp add: mean_def Let_def bind_def py_round2_def s_def n_def)
    show ?thesis
    proof (cases "2 ^ 53 < \<bar>s div int n\<bar>")
      case True
      with \<open>s mod int n = 0\<close> n mv show ?thesis
        by (simp add: whole_beyond_float_def s n_def [symmetric])
    next
      case False
      then have small: "\<bar>s div int n\<bar> \<le> 2 ^ 53" by simp
      have "s = (s div int n) * int n"
        using \<open>s mod int n = 0\<close> by (simp add: mod_eq_0_iff_dvd)
      then have "float_div s (int n) = Inr (of_int (s div int n))"
        using float_div_exact [OF n(2) small] by simp
      with round2_int [OF small]
      have "round_quotient2 s n = Inr (PyFloat (of_int (s div int n)))"
        by (simp add: round_quotient2_def bind_def)
      with n(1) mv have "mean_consistent n s m"
        by (simp add: mean_consistent_def py_eq_def num_val_def)
      with False show ?thesis
        by (simp add: whole_beyond_float_def s n_def [symmetric])
    qed
  next
    case False
    with m obtain x y where "float_div s (int n) = Inr x" "round2 x = Inr y" "m = PyFloat y"
      by (auto simp: mean_def Let_def bind_Inr_iff py_round2_def s_def n_def)
    then have "round_quotient2 s n = Inr m"
      by (simp add: round_quotient2_def bind_def)
    with n(1) have "mean_consistent n s m"
      by (simp add: mean_consistent_def py_eq_def)
    with False show ?thesis
      by (simp add: whole_beyond_float_def s n_def [symmetric])
  qed
qed

lemma build_report_big_price_ok: "\<not> isl (build_report big_price_cards)"
  by code_simp

text \<open>
  C6.  The claim: for a positive count the mean equals \<open>round(sum / count, 2)\<close>.
  It fails for the card priced \<open>2 ^ 53 + 1\<close>: \<open>statistics.mean\<close> of ints keeps a
  whole mean as the exact int, while the float \<open>sum / count\<close> is \<open>2 ^ 53\<close>.
\<close>

theorem mean_not_rounded_quotient:
  "extract_cards now0
     (column_doc ''Scheduled'' [''Received: 01/02/23 Quoted Price 9007199254740993''])
     = Inr big_price_cards
   \<and> \<not> isl (build_report big_price_cards)
   \<and> Total_Value_Count (quoted (projr (build_report big_price_cards))) = 1
   \<and> Total_Value (quoted (projr (build_report big_price_cards))) = 9007199254740993
   \<and> Average_Value (quoted (projr (build_report big_price_cards))) = PyInt 9007199254740993
   \<and> round_quotient2 9007199254740993 1 = Inr (PyFloat 9007199254740992)
   \<and> \<not> mean_consistent
         (Total_Value_Count (quoted (projr (build_report big_price_cards))))
         (Total_Value (quoted (projr (build_report big_price_cards))))
         (Average_Value (quoted (projr (build_report big_price_cards))))"
proof -
  have e: "extract_cards now0
     (column_doc ''Scheduled'' [''Received: 01/02/23 Quoted Price 9007199254740993''])
     = Inr big_price_cards"
    by code_simp
  have ok: "build_report big_price_cards = Inr (projr (build_report big_price_cards))"
    using build_report_big_price_ok by simp
  have p: "prices_of (filter (\<lambda>c. column c \<notin> EXCLUDED_COLUMNS_FOR_AGE) big_price_cards)
            = [9007199254740993]"
    by code_simp
  have a: "avg_or_0 [9007199254740993] = Inr (PyInt 9007199254740993)"
    by code_simp
  from ok obtain av where
    "avg_or_0 (prices_of (filter (\<lambda>c. column c \<notin> EXCLUDED_COLUMNS_FOR_AGE) big_price_cards)) = Inr av"
    and "Total_Value_Count (quoted (projr (build_report big_price_cards)))
           = length (prices_of (filter (\<lambda>c. column c \<notin> EXCLUDED_COLUMNS_FOR_AGE) big_price_cards))"
    and "Total_Value (quoted (projr (build_report big_price_cards)))
           = sum_or_0 (prices_of (filter (\<lambda>c. column c \<notin> EXCLUDED_COLUMNS_FOR_AGE) big_price_cards))"
    and "Average_Value (quoted (projr (build_report big_price_cards))) = av"
    by (rule build_report_Inr) simp
  then have q: "Total_Value_Count (quoted (projr (build_report big_price_cards))) = 1"
    "Total_Value (quoted (projr (build_report big_price_cards))) = 9007199254740993"
    "Average_Value (quoted (projr (build_report big_price_cards))) = PyInt 9007199254740993"
    by (simp_all add: p a sum_or_0_def)
  have r: "round_quotient2 9007199254740993 1 = Inr (PyFloat 9007199254740992)"
    by code_simp
  have n: "\<not> mean_consistent 1 9007199254740993 (PyInt 9007199254740993)"
    by code_simp
  show ?thesis
    using e build_report_big_price_ok r n by (simp only: q) simp
qed

text \<open>
  C6, amended.  In each of the three populations: for the count \<open>0\<close>, sum and mean
  are \<open>0\<close>; for a positive count the mean equals \<open>round(sum / count, 2)\<close>, unless
  \<open>sum / count\<close> is a whole number above \<open>2 ^ 53\<close> in magnitude, and then the mean
  is that whole number.
\<close>

theorem price_summary_consistent:
  assumes "build_report cards = Inr rep"
  shows "(if whole_beyond_float (Total_Value_Count (quoted rep)) (Total_Value (quoted rep))
          then Average_Value (quoted rep)
                 = PyInt (Total_Value (quoted rep) div int (Total_Value_Count (quoted rep)))
          else mean_consistent (Total_Value_Count (quoted rep)) (Total_Value (quoted rep))
                 (Average_Value (quoted rep)))
    \<and> (if whole_beyond_float (Total_Won_Count (quoted rep)) (Total_Won (quoted rep))
          then Average_Won (quoted rep)
                 = PyInt (Total_Won (quoted rep) div int (Total_Won_Count (quoted rep)))
          else mean_consistent (Total_Won_Count (quoted rep)) (Total_Won (quoted rep))
                 (Average_Won (quoted rep)))
    \<and> (if whole_beyond_float (Total_Lost_Count (quoted rep)) (Total_Lost (quoted rep))
          then Average_Lost (quoted rep)
                 = PyInt (Total_Lost (quoted rep) div int (Total_Lost_Count (quoted rep)))
          else mean_consistent (Total_Lost_Count (quoted rep)) (Total_Lost (quoted rep))
                 (Average_Lost (quoted rep)))"
proof -
  from assms obtain av aw al where
    av: "avg_or_0 (prices_of (filter (\<lambda>c. column c \<notin> EXCLUDED_COLUMNS_FOR_AGE) cards)) = Inr av"
    and aw: "avg_or_0 (prices_of (filter (\<lambda>c. column c = ''Completed'') cards)) = Inr aw"
    and al: "avg_or_0 (prices_of (filter (\<lambda>c. column c = ''Canceled'') cards)) = Inr al"
    and q: "quoted rep =
       \<lparr>Total_Value_Count = length (prices_of (filter (\<lambda>c. column c \<notin> EXCLUDED_COLUMNS_FOR_AGE) cards)),
        Total_Value = sum_or_0 (prices_of (filter (\<lambda>c. column c \<notin> EXCLUDED_COLUMNS_FOR_AGE) cards)),
        Average_Value = av,
        Total_Won_Count = length (prices_of (filter (\<lambda>c. column c = ''Completed'') cards)),
        Total_Won = sum_or_0 (prices_of (filter (\<lambda>c. column c = ''Completed'') cards)),
        Average_Won = aw,
        Total_Lost_Count = length (prices_of (filter (\<lambda>c. column c = ''Canceled'') cards)),
        Total_Lost = sum_or_0 (prices_of (filter (\<lambda>c. column c = ''Canceled'') cards)),
        Average_Lost = al\<rparr>"
    by (rule build_report_Inr)
  from avg_or_0_consistent [OF av] avg_or_0_consistent [OF aw] avg_or_0_consistent [OF al]
  show ?thesis
    unfolding q by simp
qed

theorem price_summary_consistent_witness:
  "\<not> isl (build_report cards0)
   \<and> mean_consistent 2 1501 (PyFloat (1501 / 2))
   \<and> Total_Value_Count (quoted (projr (build_report cards0))) = 2
   \<and> Total_Value (quoted (projr (build_report cards0))) = 1501
   \<and> mean_consistent 2 1501 (Average_Value (quoted (projr (build_report cards0))))
   \<and> mean_consistent 0 0 (Average_Lost (quoted (projr (build_report cards0))))"
proof -
  have ok: "build_report cards0 = Inr (projr (build_report cards0))"
    using build_report_cards0_ok by simp
  have p: "prices_of (filter (\<lambda>c. column c \<notin> EXCLUDED_COLUMNS_FOR_AGE) cards0) = [1200, 301]"
    "prices_of (filter (\<lambda>c. column c = ''Canceled'') cards0) = []"
    by code_simp+
  from ok obtain av al where
    "Total_Value_Count (quoted (projr (build_report cards0)))
           = length (prices_of (filter (\<lambda>c. column c \<notin> EXCLUDED_COLUMNS_FOR_AGE) cards0))"
    "Total_Value (quoted (projr (build_report cards0)))
           = sum_or_0 (prices_of (filter (\<lambda>c. column c \<notin> EXCLUDED_COLUMNS_FOR_AGE) cards0))"
    "Total_Lost_Count (quoted (projr (build_report cards0)))
           = length (prices_of (filter (\<lambda>c. column c = ''Canceled'') cards0))"
    "Total_Lost (quoted (projr (build_report cards0)))
           = sum_or_0 (prices_of (filter (\<lambda>c. column c = ''Canceled'') cards0))"
    by (rule build_report_Inr) simp
  then have q: "Total_Value_Count (quoted (projr (build_report cards0))) = 2"
    "Total_Value (quoted (projr (build_report cards0))) = 1501"
    "Total_Lost_Count (quoted (projr (build_report cards0))) = 0"
    "Total_Lost (quoted (projr (build_report cards0))) = 0"
    by (simp_all add: p sum_or_0_def)
  have w: "\<not> whole_beyond_float 2 1501" "\<not> whole_beyond_float 0 0"
    by (simp_all add: whole_beyond_float_def)
  have m: "mean_consistent 2 1501 (PyFloat (1501 / 2))"
    by code_simp
  from price_summary_consistent [OF ok, unfolded q] w
  have "mean_consistent 2 1501 (Average_Value (quoted (projr (build_report cards0))))"
    "mean_consistent 0 0 (Average_Lost (quoted (projr (build_report cards0))))"
    by simp_all
  then show ?thesis
    using build_report_cards0_ok m by (simp add: q)
qed

end
